theory Spec2Isabelle
  imports Complex_Main "HOL-Library.AList"
begin

section \<open>JavaScript values as far as RealTimeChart.js uses them\<close>

text \<open>
  The chart engine of \<^verbatim>\<open>src/RealTimeChart.js\<close> is embedded over a small model of the
  JavaScript values it handles.

  Numbers are exact rationals extended by \<open>Infinity\<close>, \<open>-Infinity\<close> and \<open>NaN\<close>: the rounding of
  IEEE doubles, overflow to infinity and the sign of zero are not modelled.  A division by a
  zero divisor follows the rule for the positive zero that \<open>max - min\<close> yields.
\<close>

datatype jsnum = Fin rat | PInf | NInf | NaN

fun js_neg :: "jsnum \<Rightarrow> jsnum" where
  "js_neg (Fin a) = Fin (- a)"
| "js_neg PInf = NInf"
| "js_neg NInf = PInf"
| "js_neg NaN = NaN"

fun js_add :: "jsnum \<Rightarrow> jsnum \<Rightarrow> jsnum" where
  "js_add (Fin a) (Fin b) = Fin (a + b)"
| "js_add NaN y = NaN"
| "js_add x NaN = NaN"
| "js_add PInf NInf = NaN"
| "js_add NInf PInf = NaN"
| "js_add PInf y = PInf"
| "js_add NInf y = NInf"
| "js_add (Fin a) y = y"

definition js_sub :: "jsnum \<Rightarrow> jsnum \<Rightarrow> jsnum" where
  "js_sub x y = js_add x (js_neg y)"

definition js_sign :: "rat \<Rightarrow> jsnum \<Rightarrow> jsnum" where
  \<comment> \<open>an infinity multiplied or divided by a finite number of the given sign\<close>
  "js_sign b x = (if 0 \<le> b then x else js_neg x)"

fun js_mul :: "jsnum \<Rightarrow> jsnum \<Rightarrow> jsnum" where
  "js_mul (Fin a) (Fin b) = Fin (a * b)"
| "js_mul NaN y = NaN"
| "js_mul x NaN = NaN"
| "js_mul (Fin a) y = (if a = 0 then NaN else js_sign a y)"
| "js_mul x (Fin b) = (if b = 0 then NaN else js_sign b x)"
| "js_mul PInf y = y"
| "js_mul NInf y = js_neg y"

fun js_div :: "jsnum \<Rightarrow> jsnum \<Rightarrow> jsnum" where
  "js_div (Fin a) (Fin b) =
     (if b \<noteq> 0 then Fin (a / b)
      else if a = 0 then NaN
      else if 0 < a then PInf else NInf)"
| "js_div NaN y = NaN"
| "js_div x NaN = NaN"
| "js_div (Fin a) y = Fin 0"
| "js_div x (Fin b) = js_sign b x"
| "js_div x y = NaN"

fun js_lt :: "jsnum \<Rightarrow> jsnum \<Rightarrow> bool" where
  "js_lt (Fin a) (Fin b) = (a < b)"
| "js_lt NaN y = False"
| "js_lt x NaN = False"
| "js_lt x NInf = False"
| "js_lt PInf y = False"
| "js_lt x PInf = True"
| "js_lt NInf y = True"

fun Math_round :: "jsnum \<Rightarrow> jsnum" where
  \<comment> \<open>\<open>Math.round\<close>: the nearest integer, a tie towards \<open>+Infinity\<close>\<close>
  "Math_round (Fin a) = Fin (of_int \<lfloor>a + 1 / 2\<rfloor>)"
| "Math_round x = x"

text \<open>
  Values: the primitives, and references into a heap of objects.  An object has its own
  properties in insertion order; an array additionally has its elements.
\<close>

datatype jsval = JUndefined | JNull | JBool bool | JNum jsnum | JStr string | JRef nat

record jsobj =
  props :: "(string \<times> jsval) list"
  elems :: "jsval list option"

datatype error = TypeError | RangeError | Unsupported

type_synonym heap = "jsobj list"

definition andThen :: "error + 'a \<Rightarrow> ('a \<Rightarrow> error + 'b) \<Rightarrow> error + 'b" where
  "andThen m f = (case m of Inl e \<Rightarrow> Inl e | Inr x \<Rightarrow> f x)"

definition typeof :: "jsval \<Rightarrow> string" where
  "typeof v = (case v of
      JUndefined \<Rightarrow> ''undefined''
    | JNull \<Rightarrow> ''object''
    | JBool b \<Rightarrow> ''boolean''
    | JNum n \<Rightarrow> ''number''
    | JStr s \<Rightarrow> ''string''
    | JRef a \<Rightarrow> ''object'')"

definition ToBoolean :: "jsval \<Rightarrow> bool" where
  "ToBoolean v = (case v of
      JUndefined \<Rightarrow> False
    | JNull \<Rightarrow> False
    | JBool b \<Rightarrow> b
    | JNum n \<Rightarrow> n \<noteq> Fin 0 \<and> n \<noteq> NaN
    | JStr s \<Rightarrow> s \<noteq> []
    | JRef a \<Rightarrow> True)"

definition ToNumber :: "jsval \<Rightarrow> error + jsnum" where
  \<comment> \<open>parsing a string as a number and converting an object to a primitive are left out\<close>
  "ToNumber v = (case v of
      JUndefined \<Rightarrow> Inr NaN
    | JNull \<Rightarrow> Inr (Fin 0)
    | JBool b \<Rightarrow> Inr (Fin (if b then 1 else 0))
    | JNum n \<Rightarrow> Inr n
    | JStr s \<Rightarrow> Inl Unsupported
    | JRef a \<Rightarrow> Inl Unsupported)"

definition lookup :: "heap \<Rightarrow> nat \<Rightarrow> jsobj option" where
  "lookup h a = (if a < length h then Some (h ! a) else None)"

definition alloc :: "heap \<Rightarrow> jsobj \<Rightarrow> nat \<times> heap" where
  "alloc h ob = (length h, h @ [ob])"

definition new_array :: "heap \<Rightarrow> jsval list \<Rightarrow> nat \<times> heap" where
  "new_array h xs = alloc h \<lparr>props = [], elems = Some xs\<rparr>"

definition get_prop :: "heap \<Rightarrow> jsval \<Rightarrow> string \<Rightarrow> error + jsval" where
  \<comment> \<open>\<open>v.k\<close>; reading a property of \<open>undefined\<close> or \<open>null\<close> throws, a primitive has none of
     the properties the engine reads\<close>
  "get_prop h v k = (case v of
      JUndefined \<Rightarrow> Inl TypeError
    | JNull \<Rightarrow> Inl TypeError
    | JRef a \<Rightarrow> (case lookup h a of
          None \<Rightarrow> Inl Unsupported
        | Some ob \<Rightarrow> Inr (case map_of (props ob) k of None \<Rightarrow> JUndefined | Some x \<Rightarrow> x))
    | _ \<Rightarrow> Inr JUndefined)"

definition set_prop :: "heap \<Rightarrow> jsval \<Rightarrow> string \<Rightarrow> jsval \<Rightarrow> error + heap" where
  \<comment> \<open>\<open>v.k = x\<close> in strict mode (a class body is strict): only an object takes the property\<close>
  "set_prop h v k x = (case v of
      JRef a \<Rightarrow> (case lookup h a of
          None \<Rightarrow> Inl Unsupported
        | Some ob \<Rightarrow> Inr (h[a := ob\<lparr>props := AList.update k x (props ob)\<rparr>]))
    | _ \<Rightarrow> Inl TypeError)"

definition array_of :: "heap \<Rightarrow> jsval \<Rightarrow> jsval list option" where
  \<comment> \<open>the elements of \<open>v\<close> when \<open>Array.isArray(v)\<close>\<close>
  "array_of h v = (case v of
      JRef a \<Rightarrow> (case lookup h a of None \<Rightarrow> None | Some ob \<Rightarrow> elems ob)
    | _ \<Rightarrow> None)"

definition array_length :: "heap \<Rightarrow> nat \<Rightarrow> error + nat" where
  "array_length h a = (case array_of h (JRef a) of None \<Rightarrow> Inl TypeError | Some xs \<Rightarrow> Inr (length xs))"

definition array_store :: "heap \<Rightarrow> nat \<Rightarrow> (jsval list \<Rightarrow> jsval list) \<Rightarrow> error + heap" where
  \<comment> \<open>an operation that rewrites the elements of the array at \<open>a\<close> in place\<close>
  "array_store h a f = (case lookup h a of
      None \<Rightarrow> Inl Unsupported
    | Some ob \<Rightarrow> (case elems ob of
          None \<Rightarrow> Inl TypeError
        | Some xs \<Rightarrow> Inr (h[a := ob\<lparr>elems := Some (f xs)\<rparr>])))"

definition array_push :: "heap \<Rightarrow> nat \<Rightarrow> jsval \<Rightarrow> error + heap" where
  "array_push h a v = array_store h a (\<lambda>xs. xs @ [v])"

definition array_shift :: "heap \<Rightarrow> nat \<Rightarrow> error + heap" where
  "array_shift h a = array_store h a tl"

definition js_less :: "jsval \<Rightarrow> jsval \<Rightarrow> error + bool" where
  \<comment> \<open>\<open>a < b\<close> on operands that are not both strings\<close>
  "js_less a b = andThen (ToNumber a) (\<lambda>x. andThen (ToNumber b) (\<lambda>y. Inr (js_lt x y)))"

section \<open>The chart\<close>

text \<open>
  The fields of \<open>this.options\<close> and \<open>this.settings\<close> that the engine reads and writes.
  \<open>legend\<close> is \<open>None\<close> when the options have no such property, otherwise the colours of its
  entries.
\<close>

record options =
  type :: string
  width :: jsnum
  height :: jsnum
  totalElement :: jsnum
  minValue :: jsnum
  maxValue :: jsnum
  calcMaxValue :: bool
  showRuler :: bool
  legend :: "string list option"
  paddingRight :: jsnum
  paddingBottom :: jsnum

record settings =
  paddingBottom :: jsnum
  paddingRight :: jsnum
  borderWidth :: jsnum
  boxInnerPadding :: jsnum
  stageWidth :: jsnum
  stageHeight :: jsnum
  oneXSegment :: jsnum
  oneYSegment :: jsnum
  valueDiff :: jsnum

text \<open>
  The plugins (Stage, Bar, Line) are collaborators outside this file.  A call to one of them
  is recorded in \<open>calls\<close>; they are taken not to touch the data, options or settings.
\<close>

datatype call =
    ClearStage
  | PrintRuler
  | BarDraw nat nat jsval jsval
  | LineDraw nat nat jsval jsval
  | LineResetXY

record state =
  heap :: heap
  data :: nat
  options :: options
  settings :: settings
  calls :: "call list"

definition default_options :: options where
  "default_options = \<lparr>
     type = ''line'', width = Fin 600, height = Fin 600, totalElement = Fin 50,
     minValue = Fin 250, maxValue = Fin 500, calcMaxValue = False, showRuler = True,
     legend = Some [''#846f08'', ''#2cabe3'', ''#000'', ''#53e69d''],
     paddingRight = Fin 0, paddingBottom = Fin 0\<rparr>"

definition constructor :: "options \<Rightarrow> state" where
  \<comment> \<open>the state the constructor leaves, with the options \<open>setOptions\<close> has merged\<close>
  "constructor opts = \<lparr>
     heap = [\<lparr>props = [], elems = Some []\<rparr>],
     data = 0,
     options = opts,
     settings = \<lparr>
       paddingBottom = Fin 0, paddingRight = Fin 0, borderWidth = Fin 2,
       boxInnerPadding = Fin 2, stageWidth = Fin 0, stageHeight = Fin 0,
       oneXSegment = Fin 0, oneYSegment = Fin 0, valueDiff = Fin 0\<rparr>,
     calls = []\<rparr>"

definition calculateValueDiff :: "state \<Rightarrow> state" where
  "calculateValueDiff st =
     st\<lparr>settings := (settings st)\<lparr>valueDiff :=
       js_sub (maxValue (options st)) (minValue (options st))\<rparr>\<rparr>"

definition calculateDefaults :: "state \<Rightarrow> state" where
  "calculateDefaults st =
    (let opts = options st;
         s1 = (case legend opts of
                 Some l \<Rightarrow> if 0 < length l
                   then (settings st)\<lparr>paddingBottom := js_add (options.paddingBottom opts) (Fin 30)\<rparr>
                   else settings st
               | None \<Rightarrow> settings st);
         s2 = (if showRuler opts = True
               then s1\<lparr>paddingRight := js_add (options.paddingRight opts) (Fin 30)\<rparr>
               else s1);
         s3 = s2\<lparr>borderWidth := Fin 2\<rparr>;
         s4 = s3\<lparr>boxInnerPadding := Fin 2\<rparr>;
         s5 = s4\<lparr>stageWidth :=
                js_sub (js_sub (js_sub (width opts) (borderWidth s4)) (settings.paddingRight s4))
                  (boxInnerPadding s4)\<rparr>;
         s6 = s5\<lparr>stageHeight :=
                js_sub (js_sub (js_sub (height opts) (borderWidth s5)) (settings.paddingBottom s5))
                  (boxInnerPadding s5)\<rparr>;
         s7 = s6\<lparr>oneXSegment := js_div (stageWidth s6) (totalElement opts)\<rparr>;
         s8 = s7\<lparr>oneYSegment := js_div (stageHeight s7) (Fin 100)\<rparr>
     in calculateValueDiff (st\<lparr>settings := s8\<rparr>))"

section \<open>Normalisation\<close>

text \<open>
  \<open>filterValue\<close>, \<open>calculatePercent\<close> and \<open>recalculatePercents\<close> call each other: a value
  above the maximum makes \<open>filterValue\<close> grow the range and recompute every stored sample,
  which calls \<open>calculatePercent\<close> again.  Each function is written over the
  \<open>calculatePercent\<close> it calls (\<open>cp\<close>); the recursion is closed below with a bound on the
  depth of nested calls, beyond which the call ends in \<open>RangeError\<close>, as the call stack of
  an engine does.
\<close>

type_synonym percent_fn = "state \<Rightarrow> jsval \<Rightarrow> error + jsnum \<times> state"

fun mapWith ::
  "(state \<Rightarrow> jsval \<Rightarrow> error + jsval \<times> state) \<Rightarrow> state \<Rightarrow> jsval list \<Rightarrow> error + jsval list \<times> state"
where
  \<comment> \<open>\<open>Array.prototype.map\<close> with a callback that changes the state; the caller allocates
     the array of the results\<close>
  "mapWith f st [] = Inr ([], st)"
| "mapWith f st (x # xs) =
     andThen (f st x) (\<lambda>(y, st1).
     andThen (mapWith f st1 xs) (\<lambda>(ys, st2). Inr (y # ys, st2)))"

definition returnArray :: "jsval list \<times> state \<Rightarrow> error + jsval \<times> state" where
  "returnArray r = (case r of (ys, st) \<Rightarrow>
     (case new_array (heap st) ys of (a, h) \<Rightarrow> Inr (JRef a, st\<lparr>heap := h\<rparr>)))"

definition printRuler :: "state \<Rightarrow> state" where
  "printRuler st = st\<lparr>calls := calls st @ [PrintRuler]\<rparr>"

definition recalculateSample :: "percent_fn \<Rightarrow> state \<Rightarrow> jsval \<Rightarrow> error + jsval \<times> state" where
  \<comment> \<open>\<open>data => { data.value = this.calculatePercent(data.defValue); return data; }\<close>\<close>
  "recalculateSample cp st d =
     andThen (get_prop (heap st) d ''defValue'') (\<lambda>dv.
     andThen (cp st dv) (\<lambda>(p, st1).
     andThen (set_prop (heap st1) d ''value'' (JNum p)) (\<lambda>h.
     Inr (d, st1\<lparr>heap := h\<rparr>))))"

definition recalculateBatch :: "percent_fn \<Rightarrow> state \<Rightarrow> jsval \<Rightarrow> error + jsval \<times> state" where
  \<comment> \<open>\<open>statData => statData.map(...)\<close>\<close>
  "recalculateBatch cp st statData = (case array_of (heap st) statData of
      None \<Rightarrow> Inl TypeError
    | Some xs \<Rightarrow> andThen (mapWith (recalculateSample cp) st xs) returnArray)"

definition recalculatePercents_body :: "percent_fn \<Rightarrow> state \<Rightarrow> error + state" where
  "recalculatePercents_body cp st = (case array_of (heap st) (JRef (data st)) of
      None \<Rightarrow> Inl TypeError
    | Some bs \<Rightarrow>
        andThen (mapWith (recalculateBatch cp) st bs) (\<lambda>(rs, st1).
          (case new_array (heap st1) rs of (a, h) \<Rightarrow> Inr (st1\<lparr>heap := h, data := a\<rparr>))))"

definition filterValue_body :: "percent_fn \<Rightarrow> state \<Rightarrow> jsval \<Rightarrow> error + jsval \<times> state" where
  "filterValue_body cp st val =
     andThen (ToNumber val) (\<lambda>v.
       if js_lt v (minValue (options st)) then Inr (JNum (minValue (options st)), st)
       else if js_lt (maxValue (options st)) v then
         (if calcMaxValue (options st) then
            (let st1 = st\<lparr>options := (options st)\<lparr>maxValue := js_add v (js_mul v (Fin (1 / 10)))\<rparr>\<rparr>;
                 st2 = calculateValueDiff st1
             in andThen (recalculatePercents_body cp st2) (\<lambda>st3.
                  Inr (val, printRuler st3)))
          else Inr (JNum (maxValue (options st)), st))
       else Inr (val, st))"

definition calculatePercent_body :: "percent_fn \<Rightarrow> state \<Rightarrow> jsval \<Rightarrow> error + jsnum \<times> state" where
  "calculatePercent_body cp st num =
     andThen (filterValue_body cp st num) (\<lambda>(correctValue, st1).
     andThen (ToNumber correctValue) (\<lambda>c.
       (let r = Math_round
                  (js_mul (js_div (js_sub c (minValue (options st1))) (valueDiff (settings st1)))
                     (Fin 100))
        in Inr (if ToBoolean (JNum r) then r else Fin 1, st1))))"

fun calculatePercent :: "nat \<Rightarrow> percent_fn" where
  "calculatePercent 0 st num = Inl RangeError"
| "calculatePercent (Suc n) st num = calculatePercent_body (calculatePercent n) st num"

definition filterValue :: "nat \<Rightarrow> state \<Rightarrow> jsval \<Rightarrow> error + jsval \<times> state" where
  "filterValue n = filterValue_body (calculatePercent n)"

definition recalculatePercents :: "nat \<Rightarrow> state \<Rightarrow> error + state" where
  "recalculatePercents n = recalculatePercents_body (calculatePercent n)"

section \<open>Appending data\<close>

definition transformElement :: "percent_fn \<Rightarrow> state \<Rightarrow> jsval \<Rightarrow> error + jsval \<times> state" where
  \<comment> \<open>the callback of \<open>values.map\<close> in \<open>transformChartDataToPercent\<close>\<close>
  "transformElement cp st numObject =
    (if typeof numObject = ''object'' then
       andThen (get_prop (heap st) numObject ''value'') (\<lambda>v.
       andThen (set_prop (heap st) numObject ''defValue'' v) (\<lambda>h1.
       andThen (get_prop h1 numObject ''value'') (\<lambda>v1.
       andThen (cp (st\<lparr>heap := h1\<rparr>) v1) (\<lambda>(p, st1).
       andThen (set_prop (heap st1) numObject ''value'' (JNum p)) (\<lambda>h2.
       Inr (numObject, st1\<lparr>heap := h2\<rparr>))))))
     else if typeof numObject = ''number'' then
       andThen (cp st numObject) (\<lambda>(p, st1).
         (case alloc (heap st1)
                 \<lparr>props = [(''value'', JNum p), (''defValue'', numObject)], elems = None\<rparr> of
            (a, h) \<Rightarrow> Inr (JRef a, st1\<lparr>heap := h\<rparr>)))
     else Inr (JUndefined, st))"

definition transformArray :: "percent_fn \<Rightarrow> state \<Rightarrow> jsval \<Rightarrow> error + jsval \<times> state" where
  \<comment> \<open>the last branch of \<open>transformChartDataToPercent\<close>\<close>
  "transformArray cp st vals = (case array_of (heap st) vals of
      Some xs \<Rightarrow> andThen (mapWith (transformElement cp) st xs) returnArray
    | None \<Rightarrow> Inr (JUndefined, st))"

text \<open>
  The first two branches of \<open>transformChartDataToPercent\<close> call the function again on an
  array literal.  A fresh array has type \<open>object\<close> and no \<open>value\<close> property, so that call takes
  the last branch, \<open>transformArray\<close>.
\<close>

definition transformChartDataToPercent_body ::
  "percent_fn \<Rightarrow> state \<Rightarrow> jsval \<Rightarrow> error + jsval \<times> state" where
  "transformChartDataToPercent_body cp st vals =
    (if typeof vals = ''number'' then
       (case alloc (heap st) \<lparr>props = [(''value'', vals)], elems = None\<rparr> of (ob, h1) \<Rightarrow>
       (case new_array h1 [JRef ob] of (a, h2) \<Rightarrow>
          transformArray cp (st\<lparr>heap := h2\<rparr>) (JRef a)))
     else
       andThen (if typeof vals = ''object''
                then andThen (get_prop (heap st) vals ''value'') (\<lambda>v. Inr (ToBoolean v))
                else Inr False) (\<lambda>isSample.
         if isSample then
           (case new_array (heap st) [vals] of (a, h) \<Rightarrow>
              transformArray cp (st\<lparr>heap := h\<rparr>) (JRef a))
         else transformArray cp st vals))"

definition transformChartDataToPercent :: "nat \<Rightarrow> state \<Rightarrow> jsval \<Rightarrow> error + jsval \<times> state" where
  "transformChartDataToPercent n = transformChartDataToPercent_body (calculatePercent n)"

text \<open>
  \<open>this.data.push(this.transformChartDataToPercent(value))\<close>: JavaScript evaluates the
  receiver \<open>this.data\<close> before the argument, so the batch is pushed onto the array that
  \<open>this.data\<close> named when the call began.  \<open>recalculatePercents\<close> assigns a new array to
  \<open>this.data\<close>; the length check and the \<open>shift\<close> that follow read \<open>this.data\<close> afresh.
\<close>

definition addChartData :: "nat \<Rightarrow> state \<Rightarrow> jsval \<Rightarrow> error + state" where
  "addChartData n st val =
    (let receiver = data st in
     andThen (transformChartDataToPercent n st val) (\<lambda>(batch, st1).
     andThen (array_push (heap st1) receiver batch) (\<lambda>h.
       (let st2 = st1\<lparr>heap := h\<rparr> in
        andThen (array_length (heap st2) (data st2)) (\<lambda>len.
          if js_lt (totalElement (options st2)) (Fin (of_nat len))
          then andThen (array_shift (heap st2) (data st2)) (\<lambda>h3. Inr (st2\<lparr>heap := h3\<rparr>))
          else Inr st2)))))"

fun addAll :: "nat \<Rightarrow> state \<Rightarrow> jsval list \<Rightarrow> error + state" where
  \<comment> \<open>one \<open>addChartData\<close> call per value, until one throws\<close>
  "addAll n st [] = Inr st"
| "addAll n st (v # vs) = andThen (addChartData n st v) (\<lambda>st1. addAll n st1 vs)"

section \<open>Rendering\<close>

text \<open>
  \<open>Array.prototype.sort\<close> belongs to the engine that runs the chart, not to the repository:
  it is a parameter \<open>srt\<close> of the functions that sort.  It receives the comparison as the
  language defines it (\<open>SortCompare\<close>: \<open>undefined\<close> elements go last without a call of the
  comparator, whose result is converted to a number, \<open>NaN\<close> counting as \<open>0\<close>).
\<close>

type_synonym comparator = "jsval \<Rightarrow> jsval \<Rightarrow> error + jsnum"
type_synonym host_sort = "comparator \<Rightarrow> jsval list \<Rightarrow> error + jsval list"

definition SortCompare :: "(jsval \<Rightarrow> jsval \<Rightarrow> error + jsval) \<Rightarrow> comparator" where
  "SortCompare comparefn x y =
    (if x = JUndefined \<and> y = JUndefined then Inr (Fin 0)
     else if x = JUndefined then Inr (Fin 1)
     else if y = JUndefined then Inr (Fin (- 1))
     else andThen (comparefn x y) (\<lambda>r.
          andThen (ToNumber r) (\<lambda>v. Inr (if v = NaN then Fin 0 else v))))"

definition sortDesc :: "heap \<Rightarrow> jsval \<Rightarrow> jsval \<Rightarrow> error + jsval" where
  "sortDesc h a b =
    (if typeof a = ''number'' then andThen (js_less a b) (\<lambda>r. Inr (JBool r))
     else if typeof a = ''object'' then
       andThen (get_prop h a ''value'') (\<lambda>x.
       andThen (get_prop h b ''value'') (\<lambda>y.
       andThen (js_less x y) (\<lambda>r. Inr (JBool r))))
     else Inr JUndefined)"

fun forEachFrom ::
  "(state \<Rightarrow> jsval \<Rightarrow> nat \<Rightarrow> error + state) \<Rightarrow> state \<Rightarrow> jsval list \<Rightarrow> nat \<Rightarrow> error + state"
where
  \<comment> \<open>\<open>Array.prototype.forEach\<close>, the callback taking the element and its index\<close>
  "forEachFrom f st [] i = Inr st"
| "forEachFrom f st (x # xs) i = andThen (f st x i) (\<lambda>st1. forEachFrom f st1 xs (Suc i))"

definition barDraw :: "nat \<Rightarrow> state \<Rightarrow> jsval \<Rightarrow> nat \<Rightarrow> error + state" where
  \<comment> \<open>\<open>this.Bar.setOptions({segmentKey, iterKey, percent: value.value, id: value.id});
     this.Bar.draw()\<close>\<close>
  "barDraw segmentKey st v iterKey =
     andThen (get_prop (heap st) v ''value'') (\<lambda>p.
     andThen (get_prop (heap st) v ''id'') (\<lambda>i.
     Inr (st\<lparr>calls := calls st @ [BarDraw segmentKey iterKey p i]\<rparr>)))"

definition lineDraw :: "nat \<Rightarrow> state \<Rightarrow> jsval \<Rightarrow> nat \<Rightarrow> error + state" where
  "lineDraw segmentKey st v iterKey =
     andThen (get_prop (heap st) v ''value'') (\<lambda>p.
     andThen (get_prop (heap st) v ''id'') (\<lambda>i.
     Inr (st\<lparr>calls := calls st @ [LineDraw segmentKey iterKey p i]\<rparr>)))"

definition drawBar :: "host_sort \<Rightarrow> state \<Rightarrow> jsval \<Rightarrow> nat \<Rightarrow> error + state" where
  \<comment> \<open>\<open>values.sort(this.sortDesc)\<close> sorts the array \<open>values\<close> itself and returns it\<close>
  "drawBar srt st vals segmentKey = (case vals of
      JRef a \<Rightarrow> (case array_of (heap st) vals of
          None \<Rightarrow> Inl TypeError
        | Some xs \<Rightarrow>
            andThen (srt (SortCompare (sortDesc (heap st))) xs) (\<lambda>ys.
            andThen (array_store (heap st) a (\<lambda>_. ys)) (\<lambda>h.
            forEachFrom (barDraw segmentKey) (st\<lparr>heap := h\<rparr>) ys 0)))
    | _ \<Rightarrow> Inl TypeError)"

definition drawLine :: "state \<Rightarrow> jsval \<Rightarrow> nat \<Rightarrow> error + state" where
  "drawLine st vals segmentKey = (case array_of (heap st) vals of
      None \<Rightarrow> Inl TypeError
    | Some xs \<Rightarrow> forEachFrom (lineDraw segmentKey) st xs 0)"

definition renderBar :: "host_sort \<Rightarrow> state \<Rightarrow> error + state" where
  "renderBar srt st = (case array_of (heap st) (JRef (data st)) of
      None \<Rightarrow> Inl TypeError
    | Some bs \<Rightarrow> forEachFrom (drawBar srt) st bs 0)"

definition renderLine :: "state \<Rightarrow> error + state" where
  "renderLine st = (case array_of (heap st) (JRef (data st)) of
      None \<Rightarrow> Inl TypeError
    | Some bs \<Rightarrow> andThen (forEachFrom drawLine st bs 0) (\<lambda>st1.
        Inr (st1\<lparr>calls := calls st1 @ [LineResetXY]\<rparr>)))"

definition render :: "host_sort \<Rightarrow> state \<Rightarrow> error + state" where
  "render srt st =
    (let st1 = st\<lparr>calls := calls st @ [ClearStage]\<rparr> in
     if type (options st1) = ''line'' then renderLine st1
     else if type (options st1) = ''bar'' then renderBar srt st1
     else Inr st1)"

text \<open>
  Two stable insertion sorts, as engines implement \<open>sort\<close> for short arrays.  Both take
  the elements from left to right and move each one towards the front of the part already
  sorted.  \<open>sortHostA\<close> asks the comparator about (neighbour, element) and moves the element
  past the neighbour when the answer is positive; \<open>sortHostB\<close> asks about
  (element, neighbour) and moves when the answer is negative.  For a comparator that
  answers consistently (the same order whichever way it is asked) they agree.
  The part already sorted is kept in reverse.
\<close>

fun insertA :: "comparator \<Rightarrow> jsval \<Rightarrow> jsval list \<Rightarrow> error + jsval list" where
  "insertA cmp x [] = Inr [x]"
| "insertA cmp x (t # ts) =
     andThen (cmp t x) (\<lambda>order.
       if js_lt (Fin 0) order then andThen (insertA cmp x ts) (\<lambda>r. Inr (t # r))
       else Inr (x # t # ts))"

fun insertB :: "comparator \<Rightarrow> jsval \<Rightarrow> jsval list \<Rightarrow> error + jsval list" where
  "insertB cmp x [] = Inr [x]"
| "insertB cmp x (t # ts) =
     andThen (cmp x t) (\<lambda>order.
       if js_lt order (Fin 0) then andThen (insertB cmp x ts) (\<lambda>r. Inr (t # r))
       else Inr (x # t # ts))"

fun insertAll ::
  "(jsval \<Rightarrow> jsval list \<Rightarrow> error + jsval list) \<Rightarrow> jsval list \<Rightarrow> jsval list \<Rightarrow> error + jsval list"
where
  "insertAll ins acc [] = Inr (rev acc)"
| "insertAll ins acc (x # xs) = andThen (ins x acc) (\<lambda>acc1. insertAll ins acc1 xs)"

definition sortHostA :: host_sort where
  "sortHostA cmp xs = insertAll (insertA cmp) [] xs"

definition sortHostB :: host_sort where
  "sortHostB cmp xs = insertAll (insertB cmp) [] xs"

definition init :: "state \<Rightarrow> state" where
  \<comment> \<open>\<open>init()\<close>; creating the plugins changes nothing that is modelled\<close>
  "init st = calculateDefaults st"

section \<open>What the specification says, and the charts used as examples\<close>

text \<open>
  The specification's normaliser: \<open>round((clamp(raw) - min) / diff * 100)\<close>, a result of
  \<open>0\<close> replaced by \<open>1\<close>.
\<close>

definition clamp :: "rat \<Rightarrow> rat \<Rightarrow> rat \<Rightarrow> rat" where
  "clamp lo hi raw = (if raw < lo then lo else if hi < raw then hi else raw)"

definition normalize_spec :: "rat \<Rightarrow> rat \<Rightarrow> rat \<Rightarrow> int" where
  "normalize_spec lo hi raw =
     (let p = round ((clamp lo hi raw - lo) / (hi - lo) * 100) in if p = 0 then 1 else p)"

definition windowLength :: "state \<Rightarrow> error + nat" where
  \<comment> \<open>\<open>this.data.length\<close>\<close>
  "windowLength st = array_length (heap st) (data st)"

definition window :: "state \<Rightarrow> jsval list" where
  \<comment> \<open>the batches of \<open>this.data\<close>\<close>
  "window st = (case array_of (heap st) (JRef (data st)) of None \<Rightarrow> [] | Some bs \<Rightarrow> bs)"

definition batch_samples :: "heap \<Rightarrow> jsval \<Rightarrow> jsval list" where
  "batch_samples h b = (case array_of h b of None \<Rightarrow> [] | Some xs \<Rightarrow> xs)"

definition window_samples :: "state \<Rightarrow> jsval list" where
  \<comment> \<open>every sample of every batch of the window, oldest batch first\<close>
  "window_samples st = concat (map (batch_samples (heap st)) (window st))"

definition the_prop :: "heap \<Rightarrow> jsval \<Rightarrow> string \<Rightarrow> jsval" where
  "the_prop h v k = (case get_prop h v k of Inl e \<Rightarrow> JUndefined | Inr x \<Rightarrow> x)"

text \<open>
  A chart over the range \<open>[0, 100]\<close> with a window of three batches, without and with
  \<open>calcMaxValue\<close>, and the same in bar mode.
\<close>

definition chart_fixed :: state where
  "chart_fixed = init (constructor
     (default_options\<lparr>totalElement := Fin 3, minValue := Fin 0, maxValue := Fin 100\<rparr>))"

definition chart_growing :: state where
  "chart_growing = init (constructor
     (default_options\<lparr>totalElement := Fin 3, minValue := Fin 0, maxValue := Fin 100,
        calcMaxValue := True\<rparr>))"

definition chart_bar :: state where
  "chart_bar = init (constructor
     (default_options\<lparr>type := ''bar'', totalElement := Fin 3, minValue := Fin 0,
        maxValue := Fin 100\<rparr>))"

text \<open>
  The caller's heap: a chart together with objects and arrays the caller has created.
\<close>

definition with_objects :: "state \<Rightarrow> jsobj list \<Rightarrow> state" where
  "with_objects st obs = st\<lparr>heap := heap st @ obs\<rparr>"

definition object :: "(string \<times> jsval) list \<Rightarrow> jsobj" where
  "object ps = \<lparr>props = ps, elems = None\<rparr>"

definition array :: "jsval list \<Rightarrow> jsobj" where
  "array xs = \<lparr>props = [], elems = Some xs\<rparr>"

definition plain_options :: options where
  \<comment> \<open>no legend, no ruler, and a padding of 10 on both sides\<close>
  "plain_options = default_options\<lparr>showRuler := False, legend := Some [],
     options.paddingRight := Fin 10, options.paddingBottom := Fin 10\<rparr>"

definition chart_two_bars :: state where
  \<comment> \<open>the bar chart after the caller has appended the batch \<open>[10, 20]\<close>\<close>
  "chart_two_bars =
     (case addChartData 1
             (with_objects chart_bar [array [JNum (Fin 10), JNum (Fin 20)]]) (JRef 1) of
        Inr st \<Rightarrow> st
      | Inl e \<Rightarrow> chart_bar)"


definition appended :: "jsnum \<Rightarrow> jsval list \<Rightarrow> jsval \<Rightarrow> jsval list" where
  \<comment> \<open>the window after a push of \<open>b\<close> and the eviction that may follow it\<close>
  "appended cap bs b =
     (if js_lt cap (Fin (of_nat (length (bs @ [b])))) then tl (bs @ [b]) else bs @ [b])"

definition draws :: "nat \<Rightarrow> heap \<Rightarrow> nat \<Rightarrow> jsval list \<Rightarrow> call list" where
  \<comment> \<open>the bar-draw calls for the samples \<open>ys\<close> of batch \<open>k\<close>, in this order, from index \<open>i\<close>\<close>
  "draws k h i ys =
     map (\<lambda>(j, y). BarDraw k j (the_prop h y ''value'') (the_prop h y ''id'')) (enumerate i ys)"

section \<open>Predicates for the invariants of the window\<close>

text \<open>
  \<open>calculatePercent\<close> changes the chart only when the value makes the range grow: when it is
  not below the minimum, above the maximum, and \<open>calcMaxValue\<close> is on.  Otherwise its result
  is a function of the options and settings alone: the percent of the filtered value.
\<close>

definition grows :: "options \<Rightarrow> jsnum \<Rightarrow> bool" where
  "grows opts v \<longleftrightarrow> \<not> js_lt v (minValue opts) \<and> js_lt (maxValue opts) v \<and> calcMaxValue opts"

definition filtered :: "options \<Rightarrow> jsnum \<Rightarrow> jsnum" where
  "filtered opts v =
     (if js_lt v (minValue opts) then minValue opts
      else if js_lt (maxValue opts) v then maxValue opts else v)"

definition percentOf :: "options \<Rightarrow> settings \<Rightarrow> jsnum \<Rightarrow> jsnum" where
  "percentOf opts setts c =
     (let r = Math_round (js_mul (js_div (js_sub c (minValue opts)) (valueDiff setts)) (Fin 100))
      in if ToBoolean (JNum r) then r else Fin 1)"

text \<open>
  A sample is current when its \<open>value\<close> is what \<open>calculatePercent\<close> returns for its \<open>defValue\<close>
  on the chart as it is, the call leaving the chart unchanged.  \<open>sample_pure\<close> says the same
  without running the code (the two are proved equal below).
\<close>

definition sample_current :: "state \<Rightarrow> jsval \<Rightarrow> bool" where
  "sample_current st x \<longleftrightarrow>
     (case the_prop (heap st) x ''value'' of
        JNum p \<Rightarrow> calculatePercent (Suc 0) st (the_prop (heap st) x ''defValue'') = Inr (p, st)
      | _ \<Rightarrow> False)"

definition sample_pure :: "state \<Rightarrow> jsval \<Rightarrow> bool" where
  "sample_pure st x \<longleftrightarrow>
     (case ToNumber (the_prop (heap st) x ''defValue'') of
        Inl e \<Rightarrow> False
      | Inr v \<Rightarrow> \<not> grows (options st) v \<and>
          the_prop (heap st) x ''value'' =
            JNum (percentOf (options st) (settings st) (filtered (options st) v)))"

definition is_ref :: "jsval \<Rightarrow> bool" where
  "is_ref x = (case x of JRef a \<Rightarrow> True | _ \<Rightarrow> False)"

definition valid_ref :: "heap \<Rightarrow> jsval \<Rightarrow> bool" where
  "valid_ref h x = (case x of JRef a \<Rightarrow> a < length h | _ \<Rightarrow> True)"

definition window_current :: "state \<Rightarrow> bool" where
  "window_current st \<longleftrightarrow> (\<forall>x \<in> set (window_samples st). is_ref x \<longrightarrow> sample_current st x)"

text \<open>
  A well-formed window: \<open>this.data\<close> is an array, no reference in it or in its batches
  dangles, and no batch is the window array itself.
\<close>

definition window_wf :: "state \<Rightarrow> bool" where
  "window_wf st \<longleftrightarrow>
     data st < length (heap st) \<and> elems (heap st ! data st) \<noteq> None
     \<and> (\<forall>b \<in> set (window st). valid_ref (heap st) b \<and> b \<noteq> JRef (data st))
     \<and> (\<forall>x \<in> set (window_samples st). valid_ref (heap st) x)"

definition okset :: "state \<Rightarrow> jsval set \<Rightarrow> bool" where
  "okset st S \<longleftrightarrow> (\<forall>x \<in> S. is_ref x \<longrightarrow> sample_pure st x)"

text \<open>
  What a call may change.  \<open>ext\<close>: the heap only grows and no array changes its elements.
  \<open>cp_frame\<close>: moreover only \<open>value\<close> properties change, and the minimum, \<open>calcMaxValue\<close> and
  \<open>totalElement\<close> stay.  \<open>steady\<close>: moreover the options, settings, window array and plugin
  calls stay.  \<open>moved\<close>: \<open>this.data\<close> and all its batches are arrays created since.
\<close>

definition ext :: "heap \<Rightarrow> heap \<Rightarrow> bool" where
  "ext h h' \<longleftrightarrow> length h \<le> length h' \<and> (\<forall>a < length h. elems (h' ! a) = elems (h ! a))"

definition cp_frame :: "state \<Rightarrow> state \<Rightarrow> bool" where
  "cp_frame st st' \<longleftrightarrow>
     length (heap st) \<le> length (heap st')
     \<and> (\<forall>a < length (heap st). elems (heap st' ! a) = elems (heap st ! a)
           \<and> (\<forall>k. k \<noteq> ''value'' \<longrightarrow> the_prop (heap st') (JRef a) k = the_prop (heap st) (JRef a) k))
     \<and> minValue (options st') = minValue (options st)
     \<and> calcMaxValue (options st') = calcMaxValue (options st)
     \<and> totalElement (options st') = totalElement (options st)"

definition steady :: "state \<Rightarrow> state \<Rightarrow> bool" where
  "steady s t \<longleftrightarrow> cp_frame s t \<and> options t = options s \<and> settings t = settings s
     \<and> data t = data s \<and> calls t = calls s"

definition moved :: "state \<Rightarrow> state \<Rightarrow> bool" where
  \<comment> \<open>this.data has been replaced since the state \<open>s\<close>\<close>
  "moved s s' \<longleftrightarrow> length (heap s) \<le> data s'
      \<and> (\<forall>b \<in> set (window s'). \<forall>a. b = JRef a \<longrightarrow> length (heap s) \<le> a)"

text \<open>
  The two ways a call of \<open>calculatePercent\<close> can return: without a change, or after growing
  the range and recomputing the window.
\<close>

definition quiet_result :: "state \<Rightarrow> jsval \<Rightarrow> jsnum \<Rightarrow> bool" where
  "quiet_result st d p \<longleftrightarrow>
     (\<exists>v. ToNumber d = Inr v \<and> \<not> grows (options st) v
        \<and> p = percentOf (options st) (settings st) (filtered (options st) v))"

definition loud_result :: "state \<Rightarrow> jsval \<Rightarrow> jsnum \<Rightarrow> state \<Rightarrow> bool" where
  "loud_result st d p st' \<longleftrightarrow>
     cp_frame st st' \<and> window_wf st' \<and> window_samples st' = window_samples st
     \<and> okset st' (set (window_samples st'))
     \<and> length (heap st) \<le> data st'
     \<and> (\<forall>b \<in> set (window st'). \<forall>a. b = JRef a \<longrightarrow> length (heap st) \<le> a)
     \<and> (\<exists>v. ToNumber d = Inr v \<and> \<not> js_lt v (minValue (options st'))
          \<and> calcMaxValue (options st')
          \<and> p = percentOf (options st') (settings st') v)"

definition cp_good :: "percent_fn \<Rightarrow> bool" where
  "cp_good cp \<longleftrightarrow> (\<forall>st d p st'. window_wf st \<longrightarrow> cp st d = Inr (p, st') \<longrightarrow>
      (st' = st \<and> quiet_result st d p) \<or> loud_result st d p st')"

definition transformed :: "state \<Rightarrow> jsval \<Rightarrow> state \<Rightarrow> bool" where
  "transformed s batch s' \<longleftrightarrow>
     ext (heap s) (heap s') \<and> window_wf s' \<and> okset s' (set (window_samples s'))
     \<and> ((batch = JUndefined \<and> data s' = data s \<and> window s' = window s)
        \<or> (\<exists>c ys. batch = JRef c \<and> length (heap s) \<le> c \<and> c < length (heap s')
              \<and> (\<forall>b \<in> set (window s'). b \<noteq> JRef c) \<and> c \<noteq> data s'
              \<and> elems (heap s' ! c) = Some ys \<and> (\<forall>y \<in> set ys. valid_ref (heap s') y)
              \<and> ((data s' = data s \<and> window s' = window s \<and> okset s' (set ys)) \<or> moved s s')))"




section \<open>Basic facts\<close>

lemma andThen_simps [simp]:
  "andThen (Inr x) f = f x" "andThen (Inl e) f = Inl e"
  by (simp_all add: andThen_def)

lemma js_sub_Fin [simp]: "js_sub (Fin a) (Fin b) = Fin (a - b)"
  by (simp add: js_sub_def)

lemma js_sub_NaN [simp]: "js_sub NaN y = NaN"
  by (simp add: js_sub_def)

lemma ToNumber_JNum [simp]: "ToNumber (JNum n) = Inr n"
  by (simp add: ToNumber_def)

lemma ToBoolean_Fin [simp]: "ToBoolean (JNum (Fin a)) = (a \<noteq> 0)"
  by (simp add: ToBoolean_def)

lemma percent_Fin:
  "d \<noteq> 0 \<Longrightarrow>
   Math_round (js_mul (js_div (js_sub (Fin c) (Fin lo)) (Fin d)) (Fin 100)) =
     Fin (of_int (round ((c - lo) / d * 100)))"
  by (simp add: round_def)

section \<open>The normaliser on a fixed range\<close>

lemma filterValue_no_growth:
  assumes "minValue (options st) = Fin lo" "maxValue (options st) = Fin hi"
    and "calcMaxValue (options st) \<Longrightarrow> raw \<le> hi"
  shows "filterValue_body cp st (JNum (Fin raw)) = Inr (JNum (Fin (clamp lo hi raw)), st)"
  using assms by (auto simp add: filterValue_body_def clamp_def)

lemma calculatePercent_no_growth:
  assumes "minValue (options st) = Fin lo" "maxValue (options st) = Fin hi"
    and "valueDiff (settings st) = Fin (hi - lo)" "lo < hi"
    and "calcMaxValue (options st) \<Longrightarrow> raw \<le> hi"
  shows "calculatePercent (Suc n) st (JNum (Fin raw)) =
    Inr (Fin (of_int (normalize_spec lo hi raw)), st)"
proof -
  have d: "hi - lo \<noteq> 0" using assms(4) by simp
  have fv: "filterValue_body (calculatePercent n) st (JNum (Fin raw)) =
      Inr (JNum (Fin (clamp lo hi raw)), st)"
    using assms(1,2,5) by (rule filterValue_no_growth)
  show ?thesis
    apply (simp only: calculatePercent.simps calculatePercent_body_def fv andThen_simps
        prod.case ToNumber_JNum assms(1) assms(3) percent_Fin[OF d] Let_def ToBoolean_Fin)
    apply (simp add: normalize_spec_def Let_def)
    done
qed

lemma normalize_spec_mono:
  assumes "lo < hi" "lo \<le> a" "a \<le> b" "b \<le> hi"
  shows "normalize_spec lo hi a \<le> normalize_spec lo hi b"
proof -
  let ?f = "\<lambda>x. round ((x - lo) / (hi - lo) * 100)"
  have le: "(a - lo) / (hi - lo) * 100 \<le> (b - lo) / (hi - lo) * 100"
    using assms by (simp add: divide_right_mono)
  have ab: "?f a \<le> ?f b" using le by (rule round_mono)
  have "0 \<le> (a - lo) / (hi - lo) * 100" using assms by simp
  then have "round (0::rat) \<le> ?f a" by (rule round_mono)
  then have a0: "0 \<le> ?f a" by simp
  show ?thesis using ab a0 assms by (simp add: normalize_spec_def clamp_def Let_def)
qed

text \<open>
  The two ways \<open>calculatePercent\<close> returns: leaving the chart as it is, or after growing
  the range.
\<close>

lemma calculatePercent_quiet:
  assumes "ToNumber d = Inr v" "\<not> grows (options st) v"
  shows "calculatePercent (Suc n) st d =
           Inr (percentOf (options st) (settings st) (filtered (options st) v), st)"
  using assms
  by (auto simp add: calculatePercent_body_def filterValue_body_def grows_def filtered_def
      percentOf_def Let_def)

lemma calculatePercent_loud:
  assumes "ToNumber d = Inr v" "grows (options st) v"
  shows "calculatePercent (Suc n) st d =
     andThen (recalculatePercents_body (calculatePercent n)
                (calculateValueDiff
                   (st\<lparr>options := (options st)\<lparr>maxValue := js_add v (js_mul v (Fin (1 / 10)))\<rparr>\<rparr>)))
       (\<lambda>st3. Inr (percentOf (options st3) (settings st3) v, printRuler st3))"
  using assms
  by (auto simp add: calculatePercent_body_def filterValue_body_def grows_def
      percentOf_def Let_def printRuler_def andThen_def split: sum.splits)

lemma chart_fixed_range:
  "minValue (options chart_fixed) = Fin 0" "maxValue (options chart_fixed) = Fin 100"
  "valueDiff (settings chart_fixed) = Fin (100 - 0)" "\<not> calcMaxValue (options chart_fixed)"
  by (simp_all add: chart_fixed_def init_def calculateDefaults_def calculateValueDiff_def
      constructor_def default_options_def Let_def)



text \<open>
  C9.  On a range with \<open>min < max\<close>, for raw numbers \<open>min \<le> a \<le> b \<le> max\<close> both calls return,
  leave the chart as it is, and the percent of \<open>a\<close> is at most the percent of \<open>b\<close>.
\<close>

theorem calculatePercent_monotone:
  assumes "minValue (options st) = Fin lo" "maxValue (options st) = Fin hi"
    and "valueDiff (settings st) = Fin (hi - lo)" "lo < hi"
    and "lo \<le> a" "a \<le> b" "b \<le> hi"
  shows "\<exists>pa pb. calculatePercent (Suc n) st (JNum (Fin a)) = Inr (Fin (of_int pa), st)
             \<and> calculatePercent (Suc n) st (JNum (Fin b)) = Inr (Fin (of_int pb), st)
             \<and> pa \<le> pb"
proof -
  have "calculatePercent (Suc n) st (JNum (Fin a)) =
      Inr (Fin (of_int (normalize_spec lo hi a)), st)"
    using assms by (intro calculatePercent_no_growth) auto
  moreover have "calculatePercent (Suc n) st (JNum (Fin b)) =
      Inr (Fin (of_int (normalize_spec lo hi b)), st)"
    using assms by (intro calculatePercent_no_growth) auto
  moreover have "normalize_spec lo hi a \<le> normalize_spec lo hi b"
    using assms by (intro normalize_spec_mono) auto
  ultimately show ?thesis by blast
qed

theorem calculatePercent_monotone_witness:
  "minValue (options chart_fixed) = Fin 0 \<and> maxValue (options chart_fixed) = Fin 100
   \<and> valueDiff (settings chart_fixed) = Fin (100 - 0) \<and> (0::rat) < 100
   \<and> (0::rat) \<le> 1 / 4 \<and> (1 / 4 :: rat) \<le> 99 \<and> (99::rat) \<le> 100
   \<and> (\<exists>pa pb. calculatePercent (Suc 0) chart_fixed (JNum (Fin (1 / 4))) =
                  Inr (Fin (of_int pa), chart_fixed)
             \<and> calculatePercent (Suc 0) chart_fixed (JNum (Fin 99)) =
                  Inr (Fin (of_int pb), chart_fixed)
             \<and> pa \<le> pb)"
  using calculatePercent_monotone[OF chart_fixed_range(1,2,3), of "1 / 4" 99 0]
    chart_fixed_range
  by simp

section \<open>The window\<close>

text \<open>
  C3.  The window after \<open>n\<close> calls of \<open>addChartData\<close> should hold \<open>min(n, totalElement)\<close>
  batches.  On the chart over \<open>[0, 100]\<close> with room for three batches and \<open>calcMaxValue\<close> on,
  the calls \<open>addChartData(10)\<close> and \<open>addChartData(200)\<close> leave a window of length 1: the second
  call grows the range, \<open>recalculatePercents\<close> replaces \<open>this.data\<close> (now the array at address 7)
  while the call is under way, and the new batch is pushed onto the array it replaced.
\<close>

theorem addChartData_growth_loses_batch:
  "andThen (addAll 2 chart_growing [JNum (Fin 10), JNum (Fin 200)])
     (\<lambda>st. Inr (windowLength st, window_samples st, data st)) = Inr (Inr 1, [JRef 1], 7)"
  by code_simp

section \<open>Malformed input\<close>





section \<open>Object samples\<close>

text \<open>
  C10.  An object sample given to \<open>addChartData\<close> should be normalised in place and stored by
  reference.  The caller's object \<open>{value: 0}\<close> (at address 1) is neither: its \<open>value\<close> is falsy,
  so \<open>transformChartDataToPercent\<close> takes it for no sample; the object is left as it was,
  without a \<open>defValue\<close>, and the window receives \<open>undefined\<close>.
\<close>

theorem addChartData_zero_valued_object:
  "andThen (addChartData 1 (with_objects chart_fixed [object [(''value'', JNum (Fin 0))]]) (JRef 1))
     (\<lambda>st. Inr (window st, lookup (heap st) 1)) =
   Inr ([JUndefined], Some (object [(''value'', JNum (Fin 0))]))"
  by code_simp

text \<open>
  An object whose \<open>value\<close> is truthy is normalised in place and stored by reference: the
  caller's object \<open>{value: 25.5, id: 'a'}\<close> (at address 1) is the sample of the window, with
  \<open>value\<close> 26 and \<open>defValue\<close> 25.5.
\<close>

lemma addChartData_object_sample:
  "andThen (addChartData 1
       (with_objects chart_fixed [object [(''value'', JNum (Fin (51 / 2))), (''id'', JStr ''a'')]])
       (JRef 1))
     (\<lambda>st. Inr (window_samples st, lookup (heap st) 1)) =
   Inr ([JRef 1], Some (object [(''value'', JNum (Fin 26)), (''id'', JStr ''a''),
                                (''defValue'', JNum (Fin (51 / 2)))]))"
  by code_simp

section \<open>The layout\<close>

text \<open>
  C7.  With no legend and no ruler the layout should take the paddings of the options as
  they are.  For options with an empty legend, \<open>showRuler\<close> off and both paddings 10,
  \<open>calculateDefaults\<close> leaves both paddings of the settings at the constructor's 0, and the
  stage is 596 wide and high (600 - 2 - 0 - 2).
\<close>

theorem calculateDefaults_ignores_padding:
  "options.paddingBottom plain_options = Fin 10
   \<and> options.paddingRight plain_options = Fin 10
   \<and> settings.paddingBottom (settings (init (constructor plain_options))) = Fin 0
   \<and> settings.paddingRight (settings (init (constructor plain_options))) = Fin 0
   \<and> stageWidth (settings (init (constructor plain_options))) = Fin 596
   \<and> stageHeight (settings (init (constructor plain_options))) = Fin 596"
  by code_simp

section \<open>Bar mode\<close>

text \<open>
  C5.  The samples of a batch should be drawn in descending order of \<open>value\<close>.  \<open>sortDesc\<close>
  answers with a boolean, which \<open>sort\<close> reads as 1 or 0 and never as a negative number.  On
  the host that moves an element on a negative answer the batch \<open>[10, 20]\<close> is drawn as it
  stands, in ascending order.
\<close>

theorem render_bar_hostB_keeps_order:
  "andThen (render sortHostB chart_two_bars) (\<lambda>st'. Inr (calls st')) =
   Inr [ClearStage, BarDraw 0 0 (JNum (Fin 10)) JUndefined, BarDraw 0 1 (JNum (Fin 20)) JUndefined]"
  by code_simp

lemma barDraw_result:
  "barDraw k st y i = Inr s \<Longrightarrow>
     s = st\<lparr>calls := calls st @
           [BarDraw k i (the_prop (heap st) y ''value'') (the_prop (heap st) y ''id'')]\<rparr>"
  by (auto simp add: barDraw_def the_prop_def andThen_def split: sum.splits)

lemma forEach_barDraw:
  "forEachFrom (barDraw k) st ys i = Inr st' \<Longrightarrow>
     st' = st\<lparr>calls := calls st @ draws k (heap st) i ys\<rparr>"
proof (induction ys arbitrary: st i)
  case Nil
  then show ?case by (simp add: draws_def)
next
  case (Cons y ys)
  from Cons.prems obtain s where
    s: "barDraw k st y i = Inr s" and rest: "forEachFrom (barDraw k) s ys (Suc i) = Inr st'"
    by (cases "barDraw k st y i") auto
  show ?case
    using Cons.IH[OF rest] barDraw_result[OF s]
    by (simp add: draws_def enumerate_simps)
qed

text \<open>
  C6, as the code has it.  \<open>drawBar\<close> sorts the batch array of the window itself: when it
  returns, that array holds the samples in the order the host's sort gave them, which is the
  order in which they were drawn; no other array and no property of any object has changed.
  The stored order is the one before the call only when the sort moved nothing.
\<close>

theorem drawBar_sorts_in_place:
  assumes "drawBar srt st vals k = Inr st'"
  shows "\<exists>a xs ys. vals = JRef a \<and> array_of (heap st) vals = Some xs
           \<and> srt (SortCompare (sortDesc (heap st))) xs = Inr ys
           \<and> array_of (heap st') vals = Some ys
           \<and> calls st' = calls st @ draws k (heap st') 0 ys
           \<and> (\<forall>b. b \<noteq> a \<longrightarrow> lookup (heap st') b = lookup (heap st) b)
           \<and> (\<forall>x p. get_prop (heap st') x p = get_prop (heap st) x p)"
proof -
  from assms obtain a where a: "vals = JRef a"
    by (cases vals) (auto simp add: drawBar_def)
  from assms a obtain xs where xs: "array_of (heap st) vals = Some xs"
    by (auto simp add: drawBar_def split: option.splits)
  from assms a xs obtain ys h where
    ys: "srt (SortCompare (sortDesc (heap st))) xs = Inr ys"
    and h: "array_store (heap st) a (\<lambda>_. ys) = Inr h"
    and fe: "forEachFrom (barDraw k) (st\<lparr>heap := h\<rparr>) ys 0 = Inr st'"
    by (auto simp add: drawBar_def andThen_def split: sum.splits)
  obtain ob where ob: "lookup (heap st) a = Some ob"
    and hh: "h = (heap st)[a := ob\<lparr>elems := Some ys\<rparr>]"
    using h by (auto simp add: array_store_def split: option.splits)
  have st': "st' = st\<lparr>heap := h, calls := calls st @ draws k h 0 ys\<rparr>"
    using forEach_barDraw[OF fe] by simp
  have lt: "a < length (heap st)" and oba: "ob = heap st ! a"
    using ob by (auto simp add: lookup_def split: if_splits)
  have "array_of (heap st') vals = Some ys"
    using a st' hh lt by (simp add: array_of_def lookup_def)
  moreover have "\<forall>b. b \<noteq> a \<longrightarrow> lookup (heap st') b = lookup (heap st) b"
    using st' hh by (simp add: lookup_def)
  moreover have "\<forall>x p. get_prop (heap st') x p = get_prop (heap st) x p"
  proof (intro allI)
    fix x p
    show "get_prop (heap st') x p = get_prop (heap st) x p"
      using st' hh lt oba
      by (cases x) (auto simp add: get_prop_def lookup_def nth_list_update)
  qed
  ultimately show ?thesis using a xs ys st' by auto
qed

theorem drawBar_sorts_in_place_witness:
  "drawBar sortHostA chart_two_bars (JRef 4) 0 =
     Inr (chart_two_bars\<lparr>heap := (heap chart_two_bars)[4 := array [JRef 3, JRef 2]],
            calls := [BarDraw 0 0 (JNum (Fin 20)) JUndefined,
                      BarDraw 0 1 (JNum (Fin 10)) JUndefined]\<rparr>)
   \<and> (\<exists>a xs ys. JRef 4 = JRef a
         \<and> array_of (heap chart_two_bars) (JRef 4) = Some xs \<and> xs = [JRef 2, JRef 3]
         \<and> sortHostA (SortCompare (sortDesc (heap chart_two_bars))) xs = Inr ys
         \<and> ys = [JRef 3, JRef 2])"
proof -
  let ?st' = "chart_two_bars\<lparr>heap := (heap chart_two_bars)[4 := array [JRef 3, JRef 2]],
            calls := [BarDraw 0 0 (JNum (Fin 20)) JUndefined,
                      BarDraw 0 1 (JNum (Fin 10)) JUndefined]\<rparr>"
  have run: "drawBar sortHostA chart_two_bars (JRef 4) 0 = Inr ?st'" by code_simp
  have before: "array_of (heap chart_two_bars) (JRef 4) = Some [JRef 2, JRef 3]" by code_simp
  have after: "array_of (heap ?st') (JRef 4) = Some [JRef 3, JRef 2]" by code_simp
  from drawBar_sorts_in_place[OF run] before after run show ?thesis by auto
qed

theorem render_bar_hostA_reorders_window:
  "andThen (render sortHostA chart_two_bars)
     (\<lambda>st'. Inr (window_samples chart_two_bars, window_samples st')) =
   Inr ([JRef 2, JRef 3], [JRef 3, JRef 2])"
  by code_simp

section \<open>The heap and the window under the changes a call makes\<close>

lemma lookup_Some [simp]: "a < length h \<Longrightarrow> lookup h a = Some (h ! a)"
  by (simp add: lookup_def)

lemma lookup_None [simp]: "\<not> a < length h \<Longrightarrow> lookup h a = None"
  by (simp add: lookup_def)

lemma get_prop_ref: "a < length h \<Longrightarrow> get_prop h (JRef a) k = Inr (the_prop h (JRef a) k)"
  by (simp add: get_prop_def the_prop_def)

lemma get_prop_Inr_the: "get_prop h x k = Inr v \<Longrightarrow> the_prop h x k = v"
  by (simp add: the_prop_def)

lemma set_prop_Inr:
  "set_prop h x k v = Inr h' \<Longrightarrow>
     \<exists>a. x = JRef a \<and> a < length h \<and> h' = h[a := (h ! a)\<lparr>props := AList.update k v (props (h ! a))\<rparr>]"
  by (cases x) (auto simp add: set_prop_def lookup_def split: if_splits)


lemma the_prop_update:
  "a < length h \<Longrightarrow>
   the_prop (h[a := (h ! a)\<lparr>props := AList.update k v (props (h ! a))\<rparr>]) x k' =
     (if x = JRef a \<and> k' = k then v else the_prop h x k')"
  by (cases x) (auto simp add: the_prop_def get_prop_def lookup_def nth_list_update update_conv')

lemma the_prop_append:
  "valid_ref h x \<Longrightarrow> the_prop (h @ obs) x k = the_prop h x k"
  by (cases x) (auto simp add: the_prop_def get_prop_def lookup_def valid_ref_def nth_append)

lemma array_of_Some_ref: "array_of h x = Some xs \<Longrightarrow> \<exists>a. x = JRef a \<and> a < length h \<and> elems (h ! a) = Some xs"
  by (cases x) (auto simp add: array_of_def lookup_def split: if_splits option.splits)

lemma ext_refl [simp]: "ext h h"
  by (simp add: ext_def)

lemma ext_trans: "ext h1 h2 \<Longrightarrow> ext h2 h3 \<Longrightarrow> ext h1 h3"
  by (auto simp add: ext_def)

lemma ext_append [simp]: "ext h (h @ obs)"
  by (simp add: ext_def nth_append)

lemma ext_update_props:
  "a < length h \<Longrightarrow> ext h (h[a := (h ! a)\<lparr>props := ps\<rparr>])"
  by (auto simp add: ext_def nth_list_update)

lemma ext_valid_ref: "ext h h' \<Longrightarrow> valid_ref h x \<Longrightarrow> valid_ref h' x"
  by (cases x) (auto simp add: ext_def valid_ref_def)

lemma ext_array_of: "ext h h' \<Longrightarrow> valid_ref h x \<Longrightarrow> array_of h' x = array_of h x"
  by (cases x) (auto simp add: ext_def valid_ref_def array_of_def lookup_def)

lemma ext_batch_samples: "ext h h' \<Longrightarrow> valid_ref h x \<Longrightarrow> batch_samples h' x = batch_samples h x"
  by (simp add: batch_samples_def ext_array_of)

lemma window_ext:
  assumes "window_wf st" "ext (heap st) (heap st')" "data st' = data st"
  shows "window st' = window st" "window_samples st' = window_samples st" "window_wf st'"
proof -
  have d: "data st < length (heap st)" and e: "elems (heap st ! data st) \<noteq> None"
    using assms(1) by (auto simp add: window_wf_def)
  have vd: "valid_ref (heap st) (JRef (data st))" using d by (simp add: valid_ref_def)
  show w: "window st' = window st"
    using ext_array_of[OF assms(2) vd] assms(3) by (simp add: window_def)
  have bs: "\<forall>b \<in> set (window st). valid_ref (heap st) b"
    using assms(1) by (auto simp add: window_wf_def)
  have m: "map (batch_samples (heap st')) (window st) = map (batch_samples (heap st)) (window st)"
    by (rule map_cong[OF refl]) (use bs ext_batch_samples[OF assms(2)] in auto)
  show ws: "window_samples st' = window_samples st"
    by (simp only: window_samples_def w m)
  have "data st' < length (heap st')" using d assms(2,3) by (auto simp add: ext_def)
  moreover have "elems (heap st' ! data st') \<noteq> None"
    using d e assms(2,3) by (auto simp add: ext_def)
  moreover have "\<forall>b \<in> set (window st'). valid_ref (heap st') b \<and> b \<noteq> JRef (data st')"
    using assms(1,3) w ext_valid_ref[OF assms(2)] by (auto simp add: window_wf_def)
  moreover have "\<forall>x \<in> set (window_samples st'). valid_ref (heap st') x"
    using assms(1) ws ext_valid_ref[OF assms(2)] by (auto simp add: window_wf_def)
  ultimately show "window_wf st'" by (simp add: window_wf_def)
qed

section \<open>Invariants of a map over an array\<close>

text \<open>
  An invariant of a \<open>map\<close> whose callback changes the state, and when such a \<open>map\<close>
  returns.
\<close>

lemma mapWith_invariant_aux:
  assumes "mapWith f st xs = Inr (ys, st')" "I pre st"
    and "\<And>s x y s' pre. I pre s \<Longrightarrow> x \<in> set xs \<Longrightarrow> f s x = Inr (y, s') \<Longrightarrow> I (pre @ [(x, y)]) s'"
  shows "I (pre @ zip xs ys) st' \<and> length ys = length xs"
  using assms
proof (induction xs arbitrary: st pre ys)
  case Nil
  then show ?case by simp
next
  case (Cons x xs)
  from Cons.prems(1) obtain y s1 where fx: "f st x = Inr (y, s1)"
    by (cases "f st x") auto
  with Cons.prems(1) obtain ys1 where rest: "mapWith f s1 xs = Inr (ys1, st')" and ys: "ys = y # ys1"
    by (cases "mapWith f s1 xs") auto
  have I1: "I (pre @ [(x, y)]) s1"
    using Cons.prems(3)[OF Cons.prems(2) _ fx] by simp
  have "I ((pre @ [(x, y)]) @ zip xs ys1) st' \<and> length ys1 = length xs"
  proof (rule Cons.IH[OF rest I1])
    fix s x' y' s' pre'
    assume "I pre' s" "x' \<in> set xs" "f s x' = Inr (y', s')"
    then show "I (pre' @ [(x', y')]) s'" using Cons.prems(3) by simp
  qed
  then show ?case using ys by simp
qed

lemma mapWith_invariant:
  assumes "mapWith f st xs = Inr (ys, st')" "I [] st"
    and "\<And>s x y s' pre. I pre s \<Longrightarrow> x \<in> set xs \<Longrightarrow> f s x = Inr (y, s') \<Longrightarrow> I (pre @ [(x, y)]) s'"
  shows "I (zip xs ys) st'" "length ys = length xs"
  using mapWith_invariant_aux[OF assms(1), of I "[]"] assms(2,3) by auto

section \<open>Recomputing the window\<close>

lemma cp_frame_refl [simp]: "cp_frame s s"
  by (simp add: cp_frame_def)

lemma cp_frame_trans: "cp_frame s1 s2 \<Longrightarrow> cp_frame s2 s3 \<Longrightarrow> cp_frame s1 s3"
  unfolding cp_frame_def by (auto simp add: order_trans)

lemma cp_frame_ext: "cp_frame s s' \<Longrightarrow> ext (heap s) (heap s')"
  by (simp add: cp_frame_def ext_def)

lemma cp_frame_heap:
  assumes "ext (heap s) h" "\<forall>a < length (heap s). \<forall>k. k \<noteq> ''value'' \<longrightarrow> the_prop h (JRef a) k = the_prop (heap s) (JRef a) k"
  shows "cp_frame s (s\<lparr>heap := h\<rparr>)"
  using assms by (simp add: cp_frame_def ext_def)

lemma cp_frame_set_value:
  assumes "a < length (heap s)"
  shows "cp_frame s (s\<lparr>heap := (heap s)[a := (heap s ! a)\<lparr>props := AList.update ''value'' v (props (heap s ! a))\<rparr>]\<rparr>)"
  by (rule cp_frame_heap) (use assms in \<open>auto simp add: ext_update_props the_prop_update\<close>)

lemma cp_frame_alloc: "cp_frame s (s\<lparr>heap := heap s @ obs\<rparr>)"
  by (rule cp_frame_heap) (auto simp add: the_prop_append valid_ref_def)

lemma sample_pure_cong:
  assumes "the_prop (heap s') x ''defValue'' = the_prop (heap s) x ''defValue''"
    "the_prop (heap s') x ''value'' = the_prop (heap s) x ''value''"
    "options s' = options s" "settings s' = settings s"
  shows "sample_pure s' x = sample_pure s x"
  using assms by (simp add: sample_pure_def split: sum.splits)

lemma recalculateSample_inv:
  assumes good: "cp_good cp" and wf: "window_wf s" and x: "x \<in> set (window_samples s)"
    and D: "okset s D" "D \<subseteq> set (window_samples s)"
    and run: "recalculateSample cp s x = Inr (y, s')"
  shows "y = x \<and> cp_frame s s' \<and> window_wf s' \<and> window_samples s' = window_samples s
         \<and> okset s' (insert x D)"
proof -
  from run obtain d where d: "get_prop (heap s) x ''defValue'' = Inr d"
    by (cases "get_prop (heap s) x ''defValue''") (auto simp add: recalculateSample_def)
  from run d obtain p s1 where cp: "cp s d = Inr (p, s1)"
    by (cases "cp s d") (auto simp add: recalculateSample_def)
  from run d cp obtain h where h: "set_prop (heap s1) x ''value'' (JNum p) = Inr h"
    and s': "s' = s1\<lparr>heap := h\<rparr>" and y: "y = x"
    by (cases "set_prop (heap s1) x ''value'' (JNum p)") (auto simp add: recalculateSample_def)
  from set_prop_Inr[OF h] obtain a where a: "x = JRef a" "a < length (heap s1)"
    and hh: "h = (heap s1)[a := (heap s1 ! a)\<lparr>props := AList.update ''value'' (JNum p) (props (heap s1 ! a))\<rparr>]"
    by auto
  have a0: "a < length (heap s)"
    using wf x a(1) by (auto simp add: window_wf_def valid_ref_def)
  have dd: "d = the_prop (heap s) x ''defValue''"
    using d by (simp add: the_prop_def)
  have step: "cp_frame s1 s'" unfolding s' hh by (rule cp_frame_set_value[OF a(2)])
  have props': "\<And>z k. the_prop (heap s') z k = (if z = x \<and> k = ''value'' then JNum p else the_prop (heap s1) z k)"
    unfolding s' hh a(1) using a(2) by (simp add: the_prop_update)
  have os: "options s' = options s1" "settings s' = settings s1" "data s' = data s1"
    by (simp_all add: s')
  from good wf cp have "(s1 = s \<and> quiet_result s d p) \<or> loud_result s d p s1"
    by (auto simp add: cp_good_def)
  then show ?thesis
  proof
    assume q: "s1 = s \<and> quiet_result s d p"
    then have s1: "s1 = s" by simp
    from q obtain v where v: "ToNumber d = Inr v" "\<not> grows (options s) v"
      "p = percentOf (options s) (settings s) (filtered (options s) v)"
      by (auto simp add: quiet_result_def)
    have fr: "cp_frame s s'" using step s1 by simp
    have w: "window_wf s'" "window_samples s' = window_samples s"
      using window_ext[OF wf cp_frame_ext[OF fr]] os s1 by auto
    have "okset s' (insert x D)"
      unfolding okset_def
    proof (intro ballI impI)
      fix z assume z: "z \<in> insert x D" "is_ref z"
      show "sample_pure s' z"
      proof (cases "z = x")
        case True
        then show ?thesis
          using v dd props' os s1 by (simp add: sample_pure_def)
      next
        case False
        then have "z \<in> D" using z by simp
        then have "sample_pure s z" using D(1) z(2) by (simp add: okset_def)
        moreover have "sample_pure s' z = sample_pure s z"
          by (rule sample_pure_cong) (use False props' os s1 in auto)
        ultimately show ?thesis by simp
      qed
    qed
    then show ?thesis using y fr w by simp
  next
    assume l: "loud_result s d p s1"
    then have fr1: "cp_frame s s1" and wf1: "window_wf s1"
      and ws1: "window_samples s1 = window_samples s"
      and ok1: "okset s1 (set (window_samples s1))"
      by (auto simp add: loud_result_def)
    from l obtain v where v: "ToNumber d = Inr v" "\<not> js_lt v (minValue (options s1))"
      "calcMaxValue (options s1)" "p = percentOf (options s1) (settings s1) v"
      by (auto simp add: loud_result_def)
    have fr: "cp_frame s s'" using cp_frame_trans[OF fr1 step] .
    have w: "window_wf s'" "window_samples s' = window_samples s"
      using window_ext[OF wf1 cp_frame_ext[OF step]] os ws1 by auto
    have dv1: "the_prop (heap s1) x ''defValue'' = d"
      using fr1 a0 a(1) dd by (simp add: cp_frame_def)
    have xok: "sample_pure s1 x"
      using ok1 x ws1 a(1) by (simp add: okset_def is_ref_def)
    have "okset s' (insert x D)"
      unfolding okset_def
    proof (intro ballI impI)
      fix z assume z: "z \<in> insert x D" "is_ref z"
      have zs1: "sample_pure s1 z"
        using z x D(2) ok1 ws1 by (auto simp add: okset_def)
      show "sample_pure s' z"
      proof (cases "z = x")
        case True
        have ng: "\<not> grows (options s1) v" using xok dv1 v(1) by (simp add: sample_pure_def)
        then have "filtered (options s1) v = v"
          using v(2,3) by (simp add: grows_def filtered_def)
        then show ?thesis
          using True v ng dv1 props' os by (simp add: sample_pure_def)
      next
        case False
        have "sample_pure s' z = sample_pure s1 z"
          by (rule sample_pure_cong) (use False props' os in auto)
        then show ?thesis using zs1 by simp
      qed
    qed
    then show ?thesis using y fr w by simp
  qed
qed

lemma okset_mono: "okset s A \<Longrightarrow> B \<subseteq> A \<Longrightarrow> okset s B"
  by (auto simp add: okset_def)

lemma okset_Un: "okset s (A \<union> B) = (okset s A \<and> okset s B)"
  by (auto simp add: okset_def)

lemma okset_alloc:
  assumes "okset s A" "\<forall>x \<in> A. valid_ref (heap s) x"
    and "heap s' = heap s @ obs" "options s' = options s" "settings s' = settings s"
  shows "okset s' A"
  unfolding okset_def
proof (intro ballI impI)
  fix z assume z: "z \<in> A" "is_ref z"
  have "sample_pure s' z = sample_pure s z"
    by (rule sample_pure_cong) (use z assms in \<open>auto simp add: the_prop_append\<close>)
  then show "sample_pure s' z" using assms(1) z by (simp add: okset_def)
qed

lemma window_samples_valid: "window_wf s \<Longrightarrow> x \<in> set (window_samples s) \<Longrightarrow> valid_ref (heap s) x"
  by (simp add: window_wf_def)

lemma recalculateBatch_inv:
  assumes good: "cp_good cp" and wf: "window_wf s"
    and sub: "set (batch_samples (heap s) b) \<subseteq> set (window_samples s)"
    and D: "okset s D" "D \<subseteq> set (window_samples s)"
    and run: "recalculateBatch cp s b = Inr (r, s')"
  shows "\<exists>c xs. r = JRef c \<and> length (heap s) \<le> c \<and> c < length (heap s')
           \<and> array_of (heap s) b = Some xs \<and> elems (heap s' ! c) = Some xs
           \<and> cp_frame s s' \<and> window_wf s' \<and> window_samples s' = window_samples s
           \<and> okset s' (D \<union> set xs)"
proof -
  from run obtain xs where xs: "array_of (heap s) b = Some xs"
    by (cases "array_of (heap s) b") (auto simp add: recalculateBatch_def)
  from run xs obtain ys s1 where loop: "mapWith (recalculateSample cp) s xs = Inr (ys, s1)"
    by (cases "mapWith (recalculateSample cp) s xs") (auto simp add: recalculateBatch_def)
  from run xs loop have r: "r = JRef (length (heap s1))"
    and s': "s' = s1\<lparr>heap := heap s1 @ [\<lparr>props = [], elems = Some ys\<rparr>]\<rparr>"
    by (auto simp add: recalculateBatch_def returnArray_def new_array_def alloc_def)
  have xsW: "set xs \<subseteq> set (window_samples s)"
    using sub xs by (simp add: batch_samples_def)
  define I where "I = (\<lambda>pre t. cp_frame s t \<and> window_wf t \<and> window_samples t = window_samples s
      \<and> fst ` set pre \<subseteq> set xs \<and> okset t (D \<union> fst ` set pre) \<and> (\<forall>q \<in> set pre. snd q = fst q))"
  have I0: "I [] s" using wf D(1) by (simp add: I_def)
  have Istep: "I (pre @ [(x, y)]) t'"
    if "I pre t" "x \<in> set xs" "recalculateSample cp t x = Inr (y, t')" for t x y t' pre
  proof -
    from that(1) have t: "cp_frame s t" "window_wf t" "window_samples t = window_samples s"
      "fst ` set pre \<subseteq> set xs" "okset t (D \<union> fst ` set pre)" "\<forall>q \<in> set pre. snd q = fst q"
      by (auto simp add: I_def)
    have xin: "x \<in> set (window_samples t)" using that(2) xsW t(3) by auto
    have Dsub: "D \<union> fst ` set pre \<subseteq> set (window_samples t)"
      using D(2) t(3,4) xsW by auto
    from recalculateSample_inv[OF good t(2) xin t(5) Dsub that(3)]
    have res: "y = x" "cp_frame t t'" "window_wf t'" "window_samples t' = window_samples t"
      "okset t' (insert x (D \<union> fst ` set pre))" by auto
    have "okset t' (D \<union> fst ` set (pre @ [(x, y)]))"
      using res(5) by (rule okset_mono) auto
    then show ?thesis
      using res t that(2) cp_frame_trans[OF t(1) res(2)] by (auto simp add: I_def)
  qed
  from mapWith_invariant[OF loop, of I, OF I0 Istep]
  have fin: "I (zip xs ys) s1" and len: "length ys = length xs" by auto
  have eq: "ys = xs"
  proof (rule nth_equalityI)
    show "length ys = length xs" by (rule len)
    fix i assume "i < length ys"
    then have "(xs ! i, ys ! i) \<in> set (zip xs ys)"
      using len by (auto simp add: set_zip)
    then show "ys ! i = xs ! i" using fin by (auto simp add: I_def)
  qed
  have fst_zip: "fst ` set (zip xs ys) = set xs"
    using eq by (simp add: zip_same_conv_map image_image)
  from fin have s1: "cp_frame s s1" "window_wf s1" "window_samples s1 = window_samples s"
    "okset s1 (D \<union> set xs)"
    by (auto simp add: I_def fst_zip)
  have fr1: "cp_frame s1 s'" unfolding s' by (rule cp_frame_alloc)
  have w': "window_wf s'" "window_samples s' = window_samples s1"
    using window_ext[OF s1(2) cp_frame_ext[OF fr1]] by (auto simp add: s')
  have "okset s' (D \<union> set xs)"
  proof (rule okset_alloc[OF s1(4)])
    show "\<forall>x\<in>D \<union> set xs. valid_ref (heap s1) x"
      using D(2) xsW s1(3) window_samples_valid[OF s1(2)] by auto
  qed (simp_all add: s')
  moreover have "length (heap s) \<le> length (heap s1)" using s1(1) by (simp add: cp_frame_def)
  moreover have "elems (heap s' ! length (heap s1)) = Some xs" by (simp add: s' eq)
  ultimately show ?thesis
    using r xs cp_frame_trans[OF s1(1) fr1] w' s1(3) by (auto simp add: s')
qed

lemma window_array:
  "window_wf s \<Longrightarrow> array_of (heap s) (JRef (data s)) = Some (window s)"
  by (auto simp add: window_wf_def window_def array_of_def)

lemma window_batch_samples_sub:
  "b \<in> set (window s) \<Longrightarrow> set (batch_samples (heap s) b) \<subseteq> set (window_samples s)"
  by (auto simp add: window_samples_def)

lemma recalculatePercents_inv:
  assumes good: "cp_good cp" and wf: "window_wf s"
    and run: "recalculatePercents_body cp s = Inr s'"
  shows "cp_frame s s' \<and> window_wf s' \<and> window_samples s' = window_samples s
         \<and> okset s' (set (window_samples s'))
         \<and> length (heap s) \<le> data s'
         \<and> (\<forall>b \<in> set (window s'). \<forall>a. b = JRef a \<longrightarrow> length (heap s) \<le> a)"
proof -
  let ?bs = "window s"
  have arr: "array_of (heap s) (JRef (data s)) = Some ?bs" by (rule window_array[OF wf])
  from run arr obtain rs s1 where loop: "mapWith (recalculateBatch cp) s ?bs = Inr (rs, s1)"
    by (cases "mapWith (recalculateBatch cp) s ?bs") (auto simp add: recalculatePercents_body_def)
  from run arr loop have s': "s' = s1\<lparr>heap := heap s1 @ [\<lparr>props = [], elems = Some rs\<rparr>],
      data := length (heap s1)\<rparr>"
    by (auto simp add: recalculatePercents_body_def new_array_def alloc_def)
  define I where "I = (\<lambda>pre t. cp_frame s t \<and> window_wf t \<and> window_samples t = window_samples s
      \<and> fst ` set pre \<subseteq> set ?bs
      \<and> okset t (\<Union>b \<in> fst ` set pre. set (batch_samples (heap s) b))
      \<and> (\<forall>q \<in> set pre. \<exists>c. snd q = JRef c \<and> length (heap s) \<le> c \<and> c < length (heap t)
            \<and> elems (heap t ! c) = Some (batch_samples (heap s) (fst q))))"
  have I0: "I [] s" using wf by (simp add: I_def okset_def)
  have Istep: "I (pre @ [(b, r)]) t'"
    if "I pre t" "b \<in> set ?bs" "recalculateBatch cp t b = Inr (r, t')" for t b r t' pre
  proof -
    let ?D = "\<Union>b \<in> fst ` set pre. set (batch_samples (heap s) b)"
    from that(1) have t: "cp_frame s t" "window_wf t" "window_samples t = window_samples s"
      "fst ` set pre \<subseteq> set ?bs" "okset t ?D"
      "\<forall>q \<in> set pre. \<exists>c. snd q = JRef c \<and> length (heap s) \<le> c \<and> c < length (heap t)
            \<and> elems (heap t ! c) = Some (batch_samples (heap s) (fst q))"
      by (auto simp add: I_def)
    have bv: "valid_ref (heap s) b" using wf that(2) by (simp add: window_wf_def)
    have bs_eq: "batch_samples (heap t) b = batch_samples (heap s) b"
      by (rule ext_batch_samples[OF cp_frame_ext[OF t(1)] bv])
    have sub: "set (batch_samples (heap t) b) \<subseteq> set (window_samples t)"
      using window_batch_samples_sub[OF that(2)] bs_eq t(3) by simp
    have Dsub: "?D \<subseteq> set (window_samples t)"
      using t(3,4) window_batch_samples_sub by fastforce
    from recalculateBatch_inv[OF good t(2) sub t(5) Dsub that(3)]
    obtain c xs where res: "r = JRef c" "length (heap t) \<le> c" "c < length (heap t')"
      "array_of (heap t) b = Some xs" "elems (heap t' ! c) = Some xs"
      "cp_frame t t'" "window_wf t'" "window_samples t' = window_samples t"
      "okset t' (?D \<union> set xs)" by auto
    have xs: "xs = batch_samples (heap s) b"
      using res(4) bs_eq by (simp add: batch_samples_def)
    have ext': "ext (heap t) (heap t')" by (rule cp_frame_ext[OF res(6)])
    have lens: "length (heap s) \<le> length (heap t)" using t(1) by (simp add: cp_frame_def)
    have old: "\<forall>q \<in> set pre. \<exists>c. snd q = JRef c \<and> length (heap s) \<le> c \<and> c < length (heap t')
            \<and> elems (heap t' ! c) = Some (batch_samples (heap s) (fst q))"
      using t(6) ext' by (fastforce simp add: ext_def)
    have new: "\<exists>c. r = JRef c \<and> length (heap s) \<le> c \<and> c < length (heap t')
            \<and> elems (heap t' ! c) = Some (batch_samples (heap s) b)"
      using res(1,2,3,5) xs lens by auto
    have "(\<Union>b \<in> fst ` set (pre @ [(b, r)]). set (batch_samples (heap s) b)) \<subseteq> ?D \<union> set xs"
      using xs by auto
    then have "okset t' (\<Union>b \<in> fst ` set (pre @ [(b, r)]). set (batch_samples (heap s) b))"
      by (rule okset_mono[OF res(9)])
    then show ?thesis
      using cp_frame_trans[OF t(1) res(6)] res(7,8) t(3,4) that(2) old new
      by (auto simp add: I_def)
  qed
  from mapWith_invariant[OF loop, of I, OF I0 Istep]
  have fin: "I (zip ?bs rs) s1" and len: "length rs = length ?bs" by auto
  have fst_zip: "fst ` set (zip ?bs rs) = set ?bs"
    using len by (metis map_fst_zip set_map)
  have fin': "cp_frame s s1 \<and> window_wf s1 \<and> window_samples s1 = window_samples s
      \<and> fst ` set (zip ?bs rs) \<subseteq> set ?bs
      \<and> okset s1 (\<Union>b \<in> fst ` set (zip ?bs rs). set (batch_samples (heap s) b))
      \<and> (\<forall>q \<in> set (zip ?bs rs). \<exists>c. snd q = JRef c \<and> length (heap s) \<le> c \<and> c < length (heap s1)
            \<and> elems (heap s1 ! c) = Some (batch_samples (heap s) (fst q)))"
    using fin[unfolded I_def] .
  then have s1: "cp_frame s s1" "window_wf s1" "window_samples s1 = window_samples s"
    and pairs: "\<forall>q \<in> set (zip ?bs rs). \<exists>c. snd q = JRef c \<and> length (heap s) \<le> c \<and> c < length (heap s1)
            \<and> elems (heap s1 ! c) = Some (batch_samples (heap s) (fst q))"
    by blast+
  have s1ok: "okset s1 (\<Union>b \<in> set ?bs. set (batch_samples (heap s) b))"
    using fin' by (simp only: fst_zip)
  have nth_pair: "\<exists>c. rs ! i = JRef c \<and> length (heap s) \<le> c \<and> c < length (heap s1)
            \<and> elems (heap s1 ! c) = Some (batch_samples (heap s) (?bs ! i))" if "i < length rs" for i
  proof -
    have "(?bs ! i, rs ! i) \<in> set (zip ?bs rs)" using that len by (auto simp add: set_zip)
    then show ?thesis using pairs by fastforce
  qed
  have rs_ref: "\<exists>c. r = JRef c \<and> length (heap s) \<le> c \<and> c < length (heap s1)" if "r \<in> set rs" for r
    using that nth_pair by (metis in_set_conv_nth)
  have win': "window s' = rs"
    by (simp add: s' window_def array_of_def lookup_def)
  have bsam: "map (batch_samples (heap s')) rs = map (batch_samples (heap s)) ?bs"
  proof (rule nth_equalityI)
    show "length (map (batch_samples (heap s')) rs) = length (map (batch_samples (heap s)) ?bs)"
      using len by simp
    fix i assume "i < length (map (batch_samples (heap s')) rs)"
    then have i: "i < length rs" by simp
    from nth_pair[OF i] obtain c where c: "rs ! i = JRef c" "c < length (heap s1)"
      "elems (heap s1 ! c) = Some (batch_samples (heap s) (?bs ! i))" by auto
    have "batch_samples (heap s') (rs ! i) = batch_samples (heap s) (?bs ! i)"
      using c by (simp add: s' batch_samples_def array_of_def lookup_def nth_append)
    then show "map (batch_samples (heap s')) rs ! i = map (batch_samples (heap s)) ?bs ! i"
      using i len by simp
  qed
  have ws': "window_samples s' = window_samples s"
    by (simp add: window_samples_def win' bsam)
  have valid1: "\<forall>x \<in> set (window_samples s). valid_ref (heap s1) x"
    using window_samples_valid[OF s1(2)] s1(3) by simp
  have wf': "window_wf s'"
    unfolding window_wf_def
  proof (intro conjI ballI)
    show "data s' < length (heap s')" by (simp add: s')
    show "elems (heap s' ! data s') \<noteq> None" by (simp add: s')
    fix b assume "b \<in> set (window s')"
    then obtain c where "b = JRef c" "c < length (heap s1)" using rs_ref win' by auto
    then show "valid_ref (heap s') b" "b \<noteq> JRef (data s')"
      by (auto simp add: s' valid_ref_def)
  next
    fix x assume "x \<in> set (window_samples s')"
    then have "valid_ref (heap s1) x" using valid1 ws' by simp
    then show "valid_ref (heap s') x"
      by (cases x) (auto simp add: s' valid_ref_def)
  qed
  have unionW: "(\<Union>b \<in> set ?bs. set (batch_samples (heap s) b)) = set (window_samples s)"
    by (auto simp add: window_samples_def)
  have "okset s' (set (window_samples s))"
  proof (rule okset_alloc)
    show "okset s1 (set (window_samples s))" using s1ok unionW by simp
    show "\<forall>x\<in>set (window_samples s). valid_ref (heap s1) x" by (rule valid1)
  qed (simp_all add: s')
  moreover have "cp_frame s s'"
  proof -
    have "cp_frame s1 (s1\<lparr>heap := heap s1 @ [\<lparr>props = [], elems = Some rs\<rparr>]\<rparr>)"
      by (rule cp_frame_alloc)
    then have "cp_frame s1 s'" by (simp add: s' cp_frame_def)
    then show ?thesis using cp_frame_trans[OF s1(1)] by simp
  qed
  moreover have "length (heap s) \<le> data s'"
    using s1(1) by (simp add: s' cp_frame_def)
  moreover have "\<forall>b \<in> set (window s'). \<forall>a. b = JRef a \<longrightarrow> length (heap s) \<le> a"
    using rs_ref win' by auto
  ultimately show ?thesis using wf' ws' by simp
qed

lemma window_of_heap_data:
  assumes "heap s' = heap s" "data s' = data s"
  shows "window s' = window s" "window_samples s' = window_samples s" "window_wf s' = window_wf s"
  using assms by (simp_all add: window_def window_samples_def window_wf_def)

lemma okset_cong:
  assumes "heap s' = heap s" "options s' = options s" "settings s' = settings s"
  shows "okset s' A = okset s A"
  using assms sample_pure_cong[of s' _ s] by (simp add: okset_def)

lemma calculatePercent_good: "cp_good (calculatePercent n)"
proof (induction n)
  case 0
  then show ?case by (simp add: cp_good_def)
next
  case (Suc n)
  show ?case
    unfolding cp_good_def
  proof (intro allI impI)
    fix st d p st'
    assume wf: "window_wf st" and run: "calculatePercent (Suc n) st d = Inr (p, st')"
    from run obtain v where v: "ToNumber d = Inr v"
      by (cases "ToNumber d") (auto simp add: calculatePercent_body_def filterValue_body_def)
    show "(st' = st \<and> quiet_result st d p) \<or> loud_result st d p st'"
    proof (cases "grows (options st) v")
      case False
      then show ?thesis
        using run v calculatePercent_quiet[OF v False, of n]
        by (auto simp add: quiet_result_def)
    next
      case True
      let ?st2 = "calculateValueDiff
                   (st\<lparr>options := (options st)\<lparr>maxValue := js_add v (js_mul v (Fin (1 / 10)))\<rparr>\<rparr>)"
      from run calculatePercent_loud[OF v True, of n]
      obtain st3 where rec: "recalculatePercents_body (calculatePercent n) ?st2 = Inr st3"
        and p: "p = percentOf (options st3) (settings st3) v" and st': "st' = printRuler st3"
        by (cases "recalculatePercents_body (calculatePercent n) ?st2") auto
      have hd: "heap ?st2 = heap st" "data ?st2 = data st"
        by (simp_all add: calculateValueDiff_def)
      have wf2: "window_wf ?st2" using wf window_of_heap_data(3)[OF hd] by simp
      have fr2: "cp_frame st ?st2" by (simp add: cp_frame_def calculateValueDiff_def)
      from recalculatePercents_inv[OF Suc wf2 rec]
      have r: "cp_frame ?st2 st3" "window_wf st3" "window_samples st3 = window_samples ?st2"
        "okset st3 (set (window_samples st3))" "length (heap ?st2) \<le> data st3"
        "\<forall>b \<in> set (window st3). \<forall>a. b = JRef a \<longrightarrow> length (heap ?st2) \<le> a"
        by auto
      have hd': "heap st' = heap st3" "data st' = data st3" "options st' = options st3"
        "settings st' = settings st3"
        by (simp_all add: st' printRuler_def)
      have "cp_frame st st'"
        using cp_frame_trans[OF fr2 r(1)] hd' by (simp add: cp_frame_def)
      moreover have "window_wf st'" using r(2) window_of_heap_data(3)[OF hd'(1,2)] by simp
      moreover have "window_samples st' = window_samples st"
        using r(3) window_of_heap_data(2)[OF hd'(1,2)] window_of_heap_data(2)[OF hd] by simp
      moreover have "okset st' (set (window_samples st'))"
        using r(4) okset_cong[OF hd'(1,3,4)] window_of_heap_data(2)[OF hd'(1,2)] by simp
      moreover have "length (heap st) \<le> data st'" using r(5) hd hd' by simp
      moreover have "\<forall>b \<in> set (window st'). \<forall>a. b = JRef a \<longrightarrow> length (heap st) \<le> a"
        using r(6) hd window_of_heap_data(1)[OF hd'(1,2)] by simp
      moreover have "minValue (options st') = minValue (options st)"
        "calcMaxValue (options st') = calcMaxValue (options st)"
        using \<open>cp_frame st st'\<close> by (simp_all add: cp_frame_def)
      then have "\<exists>v. ToNumber d = Inr v \<and> \<not> js_lt v (minValue (options st'))
          \<and> calcMaxValue (options st') \<and> p = percentOf (options st') (settings st') v"
        using v True p hd' by (auto simp add: grows_def)
      ultimately show ?thesis by (simp add: loud_result_def)
    qed
  qed
qed

section \<open>Appending a batch\<close>

lemma okset_insert: "okset s (insert x A) = ((is_ref x \<longrightarrow> sample_pure s x) \<and> okset s A)"
  by (auto simp add: okset_def)

lemma okset_props:
  assumes "okset s A" "options s' = options s" "settings s' = settings s"
    and "\<forall>z \<in> A. the_prop (heap s') z ''value'' = the_prop (heap s) z ''value''
          \<and> the_prop (heap s') z ''defValue'' = the_prop (heap s) z ''defValue''"
  shows "okset s' A"
  unfolding okset_def
proof (intro ballI impI)
  fix z assume z: "z \<in> A" "is_ref z"
  have "sample_pure s' z = sample_pure s z"
    by (rule sample_pure_cong) (use z assms in auto)
  then show "sample_pure s' z" using assms(1) z by (simp add: okset_def)
qed

lemma transformElement_inv:
  assumes good: "cp_good cp" and wf: "window_wf s"
    and ok: "okset s (set (window_samples s))"
    and B: "okset s B" "\<forall>y \<in> B. valid_ref (heap s) y"
    and run: "transformElement cp s x = Inr (y, s')"
  shows "ext (heap s) (heap s') \<and> window_wf s' \<and> okset s' (set (window_samples s'))
         \<and> valid_ref (heap s') y
         \<and> ((data s' = data s \<and> window s' = window s \<and> okset s' (insert y B)) \<or> moved s s')"
proof (cases "typeof x = ''object''")
  case True
  from run True obtain v0 where v0: "get_prop (heap s) x ''value'' = Inr v0"
    by (cases "get_prop (heap s) x ''value''") (auto simp add: transformElement_def)
  from run True v0 obtain h1 where h1: "set_prop (heap s) x ''defValue'' v0 = Inr h1"
    by (cases "set_prop (heap s) x ''defValue'' v0") (auto simp add: transformElement_def)
  from set_prop_Inr[OF h1] obtain a where a: "x = JRef a" "a < length (heap s)"
    and h1': "h1 = (heap s)[a := (heap s ! a)\<lparr>props := AList.update ''defValue'' v0 (props (heap s ! a))\<rparr>]"
    by auto
  have p1: "\<And>z k. the_prop h1 z k = (if z = x \<and> k = ''defValue'' then v0 else the_prop (heap s) z k)"
    unfolding h1' a(1) using a(2) by (simp add: the_prop_update)
  have len1: "length h1 = length (heap s)" by (simp add: h1')
  have v1: "get_prop h1 x ''value'' = Inr v0"
    using get_prop_ref[of a h1 "''value''"] a len1 p1 get_prop_Inr_the[OF v0] by simp
  let ?sm = "s\<lparr>heap := h1\<rparr>"
  from run True v0 h1 v1 obtain p s1 where cp: "cp ?sm v0 = Inr (p, s1)"
    by (cases "cp ?sm v0") (auto simp add: transformElement_def)
  from run True v0 h1 v1 cp obtain h2 where h2: "set_prop (heap s1) x ''value'' (JNum p) = Inr h2"
    and s': "s' = s1\<lparr>heap := h2\<rparr>" and y: "y = x"
    by (cases "set_prop (heap s1) x ''value'' (JNum p)") (auto simp add: transformElement_def)
  from set_prop_Inr[OF h2] a(1) have a1: "a < length (heap s1)"
    and h2': "h2 = (heap s1)[a := (heap s1 ! a)\<lparr>props := AList.update ''value'' (JNum p) (props (heap s1 ! a))\<rparr>]"
    by auto
  have p2: "\<And>z k. the_prop (heap s') z k = (if z = x \<and> k = ''value'' then JNum p else the_prop (heap s1) z k)"
    unfolding s' h2' a(1) using a1 by (simp add: the_prop_update)
  have os': "options s' = options s1" "settings s' = settings s1" "data s' = data s1"
    by (simp_all add: s')
  have extm: "ext (heap s) (heap ?sm)" using ext_update_props[OF a(2)] by (simp add: h1')
  have wm: "window_wf ?sm" "window ?sm = window s" "window_samples ?sm = window_samples s"
    using window_ext[OF wf extm] by simp_all
  have ext2: "ext (heap s1) (heap s')" using ext_update_props[OF a1] by (simp add: s' h2')
  have vy: "valid_ref (heap s') y" using y a(1) a1 by (simp add: valid_ref_def s' h2')
  from good wm(1) cp have "(s1 = ?sm \<and> quiet_result ?sm v0 p) \<or> loud_result ?sm v0 p s1"
    by (auto simp add: cp_good_def)
  then show ?thesis
  proof
    assume q: "s1 = ?sm \<and> quiet_result ?sm v0 p"
    then have s1: "s1 = ?sm" by simp
    from q obtain v where v: "ToNumber v0 = Inr v" "\<not> grows (options s) v"
      "p = percentOf (options s) (settings s) (filtered (options s) v)"
      by (auto simp add: quiet_result_def)
    have w': "window_wf s'" "window s' = window s" "window_samples s' = window_samples s"
      using window_ext[OF wm(1) ext2[unfolded s1]] wm os' s1 by simp_all
    have xok: "sample_pure s' x"
      using v p1 p2 s1 os' by (simp add: sample_pure_def)
    have others: "okset s' (A - {x})" if "okset s A" for A
      by (rule okset_props[OF okset_mono[OF that]]) (use p1 p2 s1 os' in auto)
    have all: "okset s' A" if "okset s A" for A
      using others[OF that] xok by (auto simp add: okset_def)
    have "ext (heap s) (heap s')" using ext_trans[OF extm] ext2 s1 by simp
    then show ?thesis
      using w' all[OF ok] all[OF B(1)] xok vy y os' s1 by (simp add: okset_insert)
  next
    assume l: "loud_result ?sm v0 p s1"
    then have fr1: "cp_frame ?sm s1" and wf1: "window_wf s1"
      and ws1: "window_samples s1 = window_samples ?sm"
      and ok1: "okset s1 (set (window_samples s1))"
      and mv: "length (heap ?sm) \<le> data s1"
        "\<forall>b \<in> set (window s1). \<forall>a. b = JRef a \<longrightarrow> length (heap ?sm) \<le> a"
      by (auto simp add: loud_result_def)
    from l obtain v where v: "ToNumber v0 = Inr v" "\<not> js_lt v (minValue (options s1))"
      "calcMaxValue (options s1)" "p = percentOf (options s1) (settings s1) v"
      by (auto simp add: loud_result_def)
    have w': "window_wf s'" "window s' = window s1" "window_samples s' = window_samples s1"
      using window_ext[OF wf1 ext2] os' by simp_all
    have dv1: "the_prop (heap s1) x ''defValue'' = v0"
      using fr1 a p1 len1 by (simp add: cp_frame_def)
    have "okset s' (set (window_samples s1))"
      unfolding okset_def
    proof (intro ballI impI)
      fix z assume z: "z \<in> set (window_samples s1)" "is_ref z"
      have zs1: "sample_pure s1 z" using z ok1 by (auto simp add: okset_def)
      show "sample_pure s' z"
      proof (cases "z = x")
        case True
        have ng: "\<not> grows (options s1) v" using zs1 True dv1 v(1) by (simp add: sample_pure_def)
        then have "filtered (options s1) v = v"
          using v(2,3) by (simp add: grows_def filtered_def)
        then show ?thesis
          using True v ng dv1 p2 os' by (simp add: sample_pure_def)
      next
        case False
        have "sample_pure s' z = sample_pure s1 z"
          by (rule sample_pure_cong) (use False p2 os' in auto)
        then show ?thesis using zs1 by simp
      qed
    qed
    moreover have "moved s s'"
      using mv w'(2) os' len1 by (simp add: moved_def)
    moreover have "ext (heap s) (heap s')"
      using ext_trans[OF ext_trans[OF extm cp_frame_ext[OF fr1]] ext2] by simp
    ultimately show ?thesis using w' vy by simp
  qed
next
  case notobj: False
  show ?thesis
  proof (cases "typeof x = ''number''")
    case True
    from run notobj True obtain p s1 where cp: "cp s x = Inr (p, s1)"
      by (cases "cp s x") (auto simp add: transformElement_def)
    let ?ob = "\<lparr>props = [(''value'', JNum p), (''defValue'', x)], elems = None\<rparr>"
    from run notobj True cp have y: "y = JRef (length (heap s1))"
      and s': "s' = s1\<lparr>heap := heap s1 @ [?ob]\<rparr>"
      by (auto simp add: transformElement_def alloc_def)
    have os': "options s' = options s1" "settings s' = settings s1" "data s' = data s1"
      by (simp_all add: s')
    have ext2: "ext (heap s1) (heap s')" by (simp add: s')
    have vy: "valid_ref (heap s') y" by (simp add: y s' valid_ref_def)
    have py: "the_prop (heap s') y ''value'' = JNum p" "the_prop (heap s') y ''defValue'' = x"
      by (simp_all add: y s' the_prop_def get_prop_def lookup_def)
    from good wf cp have "(s1 = s \<and> quiet_result s x p) \<or> loud_result s x p s1"
      by (auto simp add: cp_good_def)
    then show ?thesis
    proof
      assume q: "s1 = s \<and> quiet_result s x p"
      then have s1: "s1 = s" by simp
      from q obtain v where v: "ToNumber x = Inr v" "\<not> grows (options s) v"
        "p = percentOf (options s) (settings s) (filtered (options s) v)"
        by (auto simp add: quiet_result_def)
      have w': "window_wf s'" "window s' = window s" "window_samples s' = window_samples s"
        using window_ext[OF wf ext2[unfolded s1]] os' s1 by simp_all
      have yok: "sample_pure s' y" using v py os' s1 by (simp add: sample_pure_def)
      have "okset s' (set (window_samples s))"
        by (rule okset_alloc[OF ok]) (use window_samples_valid[OF wf] s' s1 in auto)
      moreover have "okset s' B"
        by (rule okset_alloc[OF B(1)]) (use B(2) s' s1 in auto)
      ultimately show ?thesis
        using w' yok vy ext2 os' s1 by (simp add: okset_insert)
    next
      assume l: "loud_result s x p s1"
      then have fr1: "cp_frame s s1" and wf1: "window_wf s1"
        and ok1: "okset s1 (set (window_samples s1))"
        and mv: "length (heap s) \<le> data s1"
          "\<forall>b \<in> set (window s1). \<forall>a. b = JRef a \<longrightarrow> length (heap s) \<le> a"
        by (auto simp add: loud_result_def)
      have w': "window_wf s'" "window s' = window s1" "window_samples s' = window_samples s1"
        using window_ext[OF wf1 ext2] os' by simp_all
      have "okset s' (set (window_samples s1))"
        by (rule okset_alloc[OF ok1]) (use window_samples_valid[OF wf1] s' in auto)
      moreover have "moved s s'" using mv w'(2) os' by (simp add: moved_def)
      moreover have "ext (heap s) (heap s')"
        using ext_trans[OF cp_frame_ext[OF fr1] ext2] .
      ultimately show ?thesis using w' vy by simp
    qed
  next
    case False
    with run notobj have "y = JUndefined" "s' = s"
      by (auto simp add: transformElement_def)
    then show ?thesis
      using wf ok B by (simp add: valid_ref_def okset_insert is_ref_def)
  qed
qed

lemma moved_trans_ext:
  "ext (heap s0) (heap s) \<Longrightarrow> moved s s' \<Longrightarrow> moved s0 s'"
  by (fastforce simp add: moved_def ext_def)

lemma moved_keep:
  "moved s0 s \<Longrightarrow> data s' = data s \<Longrightarrow> window s' = window s \<Longrightarrow> moved s0 s'"
  by (simp add: moved_def)

lemma transformLoop_inv:
  assumes good: "cp_good cp" and wf: "window_wf s"
    and ok: "okset s (set (window_samples s))"
    and run: "mapWith (transformElement cp) s xs = Inr (ys, s')"
  shows "ext (heap s) (heap s') \<and> window_wf s' \<and> okset s' (set (window_samples s'))
         \<and> (\<forall>y \<in> set ys. valid_ref (heap s') y)
         \<and> ((data s' = data s \<and> window s' = window s \<and> okset s' (set ys)) \<or> moved s s')"
proof -
  define I where "I = (\<lambda>(pre :: (jsval \<times> jsval) list) t. ext (heap s) (heap t) \<and> window_wf t
      \<and> okset t (set (window_samples t))
      \<and> (\<forall>y \<in> snd ` set pre. valid_ref (heap t) y)
      \<and> ((data t = data s \<and> window t = window s \<and> okset t (snd ` set pre)) \<or> moved s t))"
  have I0: "I [] s" using wf ok by (simp add: I_def okset_def)
  have Istep: "I (pre @ [(x, y)]) t'"
    if "I pre t" "x \<in> set xs" "transformElement cp t x = Inr (y, t')" for t x y t' pre
  proof -
    from that(1) have t: "ext (heap s) (heap t)" "window_wf t" "okset t (set (window_samples t))"
      "\<forall>y \<in> snd ` set pre. valid_ref (heap t) y"
      "(data t = data s \<and> window t = window s \<and> okset t (snd ` set pre)) \<or> moved s t"
      using that(1)[unfolded I_def] by blast+
    show ?thesis
    proof (cases "moved s t")
      case True
      have e: "okset t {}" by (simp add: okset_def)
      from transformElement_inv[OF good t(2,3) e _ that(3)]
      have r: "ext (heap t) (heap t')" "window_wf t'" "okset t' (set (window_samples t'))"
        "valid_ref (heap t') y"
        "(data t' = data t \<and> window t' = window t \<and> okset t' (insert y {})) \<or> moved t t'"
        by auto
      have mv: "moved s t'"
        using r(5) True moved_keep[of s t t'] moved_trans_ext[OF t(1), of t'] by auto
      have "\<forall>y \<in> snd ` set (pre @ [(x, y)]). valid_ref (heap t') y"
        using t(4) r(4) ext_valid_ref[OF r(1)] by auto
      then show ?thesis
        using ext_trans[OF t(1) r(1)] r(2,3) mv unfolding I_def by blast
    next
      case False
      with t(5) have q: "data t = data s" "window t = window s" "okset t (snd ` set pre)" by auto
      from transformElement_inv[OF good t(2,3) q(3) t(4) that(3)]
      have r: "ext (heap t) (heap t')" "window_wf t'" "okset t' (set (window_samples t'))"
        "valid_ref (heap t') y"
        "(data t' = data t \<and> window t' = window t \<and> okset t' (insert y (snd ` set pre))) \<or> moved t t'"
        by auto
      have v: "\<forall>y \<in> snd ` set (pre @ [(x, y)]). valid_ref (heap t') y"
        using t(4) r(4) ext_valid_ref[OF r(1)] by auto
      have "(data t' = data s \<and> window t' = window s \<and> okset t' (snd ` set (pre @ [(x, y)])))
            \<or> moved s t'"
        using r(5) q(1,2) moved_trans_ext[OF t(1), of t'] by auto
      then show ?thesis
        using ext_trans[OF t(1) r(1)] r(2,3) v unfolding I_def by blast
    qed
  qed
  from mapWith_invariant[OF run, of I, OF I0 Istep]
  have fin: "I (zip xs ys) s'" and len: "length ys = length xs" by auto
  have snd_zip: "snd ` set (zip xs ys) = set ys"
    using len by (metis map_snd_zip set_map)
  show ?thesis using fin[unfolded I_def snd_zip] .
qed

lemma transformArray_inv:
  assumes good: "cp_good cp" and wf: "window_wf s"
    and ok: "okset s (set (window_samples s))"
    and run: "transformArray cp s vals = Inr (batch, s')"
  shows "ext (heap s) (heap s') \<and> window_wf s' \<and> okset s' (set (window_samples s'))
     \<and> ((batch = JUndefined \<and> s' = s)
        \<or> (\<exists>c ys. batch = JRef c \<and> length (heap s) \<le> c \<and> c < length (heap s')
              \<and> (\<forall>b \<in> set (window s'). b \<noteq> JRef c) \<and> c \<noteq> data s'
              \<and> elems (heap s' ! c) = Some ys \<and> (\<forall>y \<in> set ys. valid_ref (heap s') y)
              \<and> ((data s' = data s \<and> window s' = window s \<and> okset s' (set ys)) \<or> moved s s')))"
proof (cases "array_of (heap s) vals")
  case None
  with run have "batch = JUndefined" "s' = s" by (auto simp add: transformArray_def)
  then show ?thesis using wf ok by simp
next
  case (Some xs)
  with run obtain ys s1 where loop: "mapWith (transformElement cp) s xs = Inr (ys, s1)"
    by (cases "mapWith (transformElement cp) s xs") (auto simp add: transformArray_def)
  from run Some loop have b: "batch = JRef (length (heap s1))"
    and s': "s' = s1\<lparr>heap := heap s1 @ [\<lparr>props = [], elems = Some ys\<rparr>]\<rparr>"
    by (auto simp add: transformArray_def returnArray_def new_array_def alloc_def)
  from transformLoop_inv[OF good wf ok loop]
  have r: "ext (heap s) (heap s1)" "window_wf s1" "okset s1 (set (window_samples s1))"
    "\<forall>y \<in> set ys. valid_ref (heap s1) y"
    "(data s1 = data s \<and> window s1 = window s \<and> okset s1 (set ys)) \<or> moved s s1"
    by auto
  have ext2: "ext (heap s1) (heap s')" by (simp add: s')
  have os': "options s' = options s1" "settings s' = settings s1" "data s' = data s1"
    by (simp_all add: s')
  have w': "window_wf s'" "window s' = window s1" "window_samples s' = window_samples s1"
    using window_ext[OF r(2) ext2] os' by simp_all
  have ok': "okset s' (set (window_samples s1))"
    by (rule okset_alloc[OF r(3)]) (use window_samples_valid[OF r(2)] s' in auto)
  have vys: "\<forall>y \<in> set ys. valid_ref (heap s') y"
    using r(4) ext_valid_ref[OF ext2] by auto
  have notbatch: "\<forall>b \<in> set (window s'). b \<noteq> JRef (length (heap s1))"
    using r(2) w'(2) by (auto simp add: window_wf_def valid_ref_def)
  have notdata: "length (heap s1) \<noteq> data s'"
    using r(2) os' by (auto simp add: window_wf_def)
  have last: "(data s' = data s \<and> window s' = window s \<and> okset s' (set ys)) \<or> moved s s'"
  proof (cases "moved s s1")
    case True
    then show ?thesis using moved_keep[of s s1 s'] w'(2) os' by simp
  next
    case False
    with r(5) have q: "data s1 = data s" "window s1 = window s" "okset s1 (set ys)" by auto
    have "okset s' (set ys)"
      by (rule okset_alloc[OF q(3)]) (use r(4) s' in auto)
    then show ?thesis using q w'(2) os' by simp
  qed
  have "length (heap s) \<le> length (heap s1)" using r(1) by (simp add: ext_def)
  moreover have "elems (heap s' ! length (heap s1)) = Some ys" by (simp add: s')
  moreover have "length (heap s1) < length (heap s')" by (simp add: s')
  ultimately show ?thesis
    using b ext_trans[OF r(1) ext2] w' ok' vys notbatch notdata last by auto
qed

lemma transformed_alloc:
  assumes wf: "window_wf s" and t: "transformed (s\<lparr>heap := heap s @ obs\<rparr>) batch s'"
  shows "transformed s batch s'"
proof -
  let ?sw = "s\<lparr>heap := heap s @ obs\<rparr>"
  have e: "ext (heap s) (heap ?sw)" by simp
  have w: "window ?sw = window s" using window_ext[OF wf e] by simp
  have m: "moved s s'" if "moved ?sw s'" using moved_trans_ext[OF e that] .
  from t have "ext (heap s) (heap s')" using ext_trans[OF e] by (simp add: transformed_def)
  moreover from t have "window_wf s'" "okset s' (set (window_samples s'))"
    by (simp_all add: transformed_def)
  moreover have "(batch = JUndefined \<and> data s' = data s \<and> window s' = window s)
        \<or> (\<exists>c ys. batch = JRef c \<and> length (heap s) \<le> c \<and> c < length (heap s')
              \<and> (\<forall>b \<in> set (window s'). b \<noteq> JRef c) \<and> c \<noteq> data s'
              \<and> elems (heap s' ! c) = Some ys \<and> (\<forall>y \<in> set ys. valid_ref (heap s') y)
              \<and> ((data s' = data s \<and> window s' = window s \<and> okset s' (set ys)) \<or> moved s s'))"
  proof -
    from t consider (u) "batch = JUndefined" "data s' = data ?sw" "window s' = window ?sw"
      | (r) c ys where "batch = JRef c" "length (heap ?sw) \<le> c" "c < length (heap s')"
          "\<forall>b \<in> set (window s'). b \<noteq> JRef c" "c \<noteq> data s'"
          "elems (heap s' ! c) = Some ys" "\<forall>y \<in> set ys. valid_ref (heap s') y"
          "(data s' = data ?sw \<and> window s' = window ?sw \<and> okset s' (set ys)) \<or> moved ?sw s'"
      unfolding transformed_def by blast
    then show ?thesis
    proof cases
      case u
      then show ?thesis using w by simp
    next
      case r
      have "length (heap s) \<le> c" using r(2) by simp
      moreover have "(data s' = data s \<and> window s' = window s \<and> okset s' (set ys)) \<or> moved s s'"
        using r(8) w m by auto
      ultimately show ?thesis using r by blast
    qed
  qed
  ultimately show ?thesis unfolding transformed_def by blast
qed

lemma transformArray_transformed:
  assumes "cp_good cp" "window_wf s" "okset s (set (window_samples s))"
    and "transformArray cp s vals = Inr (batch, s')"
  shows "transformed s batch s'"
  using transformArray_inv[OF assms] unfolding transformed_def by auto

lemma wf_okset_alloc:
  assumes "window_wf s" "okset s (set (window_samples s))"
  shows "window_wf (s\<lparr>heap := heap s @ obs\<rparr>)"
    "okset (s\<lparr>heap := heap s @ obs\<rparr>) (set (window_samples (s\<lparr>heap := heap s @ obs\<rparr>)))"
proof -
  let ?sw = "s\<lparr>heap := heap s @ obs\<rparr>"
  have e: "ext (heap s) (heap ?sw)" by simp
  show "window_wf ?sw" using window_ext[OF assms(1) e] by simp
  have ws: "window_samples ?sw = window_samples s" using window_ext[OF assms(1) e] by simp
  have "okset ?sw (set (window_samples s))"
    by (rule okset_alloc[OF assms(2)]) (use window_samples_valid[OF assms(1)] in auto)
  then show "okset ?sw (set (window_samples ?sw))" using ws by simp
qed

lemma transform_inv:
  assumes good: "cp_good cp" and wf: "window_wf s"
    and ok: "okset s (set (window_samples s))"
    and run: "transformChartDataToPercent_body cp s v = Inr (batch, s')"
  shows "transformed s batch s'"
proof (cases "typeof v = ''number''")
  case True
  let ?obs = "[\<lparr>props = [(''value'', v)], elems = None\<rparr>,
              \<lparr>props = [], elems = Some [JRef (length (heap s))]\<rparr>]"
  let ?sw = "s\<lparr>heap := heap s @ ?obs\<rparr>"
  from run True have r: "transformArray cp ?sw (JRef (Suc (length (heap s)))) = Inr (batch, s')"
    by (simp add: transformChartDataToPercent_body_def alloc_def new_array_def)
  show ?thesis
    by (rule transformed_alloc[OF wf transformArray_transformed[OF good wf_okset_alloc[OF wf ok] r]])
next
  case False
  show ?thesis
  proof (cases "typeof v = ''object''")
    case True
    from run False True obtain x where x: "get_prop (heap s) v ''value'' = Inr x"
      by (cases "get_prop (heap s) v ''value''")
         (auto simp add: transformChartDataToPercent_body_def)
    show ?thesis
    proof (cases "ToBoolean x")
      case True
      let ?obs = "[\<lparr>props = [], elems = Some [v]\<rparr>]"
      let ?sw = "s\<lparr>heap := heap s @ ?obs\<rparr>"
      from run False \<open>typeof v = ''object''\<close> x True
      have r: "transformArray cp ?sw (JRef (length (heap s))) = Inr (batch, s')"
        by (simp add: transformChartDataToPercent_body_def alloc_def new_array_def)
      show ?thesis
        by (rule transformed_alloc[OF wf transformArray_transformed[OF good wf_okset_alloc[OF wf ok] r]])
    next
      case nb: False
      from run False True x nb have r: "transformArray cp s v = Inr (batch, s')"
        by (simp add: transformChartDataToPercent_body_def)
      show ?thesis by (rule transformArray_transformed[OF good wf ok r])
    qed
  next
    case nobj: False
    from run False nobj have r: "transformArray cp s v = Inr (batch, s')"
      by (simp add: transformChartDataToPercent_body_def)
    show ?thesis by (rule transformArray_transformed[OF good wf ok r])
  qed
qed

lemma the_prop_set_elems:
  "the_prop (h[a := (h ! a)\<lparr>elems := e\<rparr>]) x k = the_prop h x k"
  by (cases x; cases "a < length h")
     (auto simp add: the_prop_def get_prop_def lookup_def nth_list_update)

lemma batch_samples_set_elems:
  "b \<noteq> JRef a \<Longrightarrow> batch_samples (h[a := (h ! a)\<lparr>elems := e\<rparr>]) b = batch_samples h b"
  by (cases b; cases "a < length h")
     (auto simp add: batch_samples_def array_of_def lookup_def nth_list_update)

lemma valid_ref_set_elems [simp]:
  "valid_ref (h[a := ob]) x = valid_ref h x"
  by (cases x) (auto simp add: valid_ref_def)

lemma data_store:
  assumes d: "data s < length (heap s)"
    and s': "s' = s\<lparr>heap := (heap s)[data s := (heap s ! data s)\<lparr>elems := Some bs\<rparr>]\<rparr>"
    and bs: "\<forall>b \<in> set bs. valid_ref (heap s) b \<and> b \<noteq> JRef (data s)"
    and xs: "\<forall>b \<in> set bs. \<forall>x \<in> set (batch_samples (heap s) b). valid_ref (heap s) x"
    and ok: "okset s (\<Union>b \<in> set bs. set (batch_samples (heap s) b))"
  shows "window_wf s' \<and> window s' = bs \<and> okset s' (set (window_samples s'))"
proof -
  have w: "window s' = bs" using d by (simp add: s' window_def array_of_def lookup_def)
  have m: "map (batch_samples (heap s')) bs = map (batch_samples (heap s)) bs"
    by (rule map_cong[OF refl]) (use bs in \<open>auto simp add: s' batch_samples_set_elems\<close>)
  have ws: "set (window_samples s') = (\<Union>b \<in> set bs. set (batch_samples (heap s) b))"
    by (simp add: window_samples_def w m)
  have "okset s' (\<Union>b \<in> set bs. set (batch_samples (heap s) b))"
    by (rule okset_props[OF ok]) (simp_all add: s' the_prop_set_elems)
  moreover have "window_wf s'"
    unfolding window_wf_def using d bs xs ws w by (auto simp add: s')
  ultimately show ?thesis using w ws by simp
qed

lemma other_store:
  assumes wf: "window_wf s" and ok: "okset s (set (window_samples s))"
    and r: "r \<noteq> data s" "\<forall>b \<in> set (window s). b \<noteq> JRef r"
    and s': "s' = s\<lparr>heap := (heap s)[r := (heap s ! r)\<lparr>elems := e\<rparr>]\<rparr>"
  shows "window_wf s' \<and> okset s' (set (window_samples s'))"
proof -
  have w: "window s' = window s"
    using r(1) by (simp add: s' window_def array_of_def lookup_def)
  have m: "map (batch_samples (heap s')) (window s) = map (batch_samples (heap s)) (window s)"
    by (rule map_cong[OF refl]) (use r(2) in \<open>auto simp add: s' batch_samples_set_elems\<close>)
  have ws: "window_samples s' = window_samples s"
    by (simp add: window_samples_def w m)
  have "okset s' (set (window_samples s))"
    by (rule okset_props[OF ok]) (simp_all add: s' the_prop_set_elems)
  moreover have "window_wf s'"
    using wf r(1) unfolding window_wf_def ws w by (auto simp add: s')
  ultimately show ?thesis using ws by simp
qed

lemma array_store_Inr:
  "array_store h a f = Inr h' \<Longrightarrow>
     \<exists>es. a < length h \<and> elems (h ! a) = Some es \<and> h' = h[a := (h ! a)\<lparr>elems := Some (f es)\<rparr>]"
  by (auto simp add: array_store_def lookup_def split: if_splits option.splits)

lemma push_inv:
  assumes wf: "window_wf s" and t: "transformed s batch s1"
    and push: "array_push (heap s1) (data s) batch = Inr h"
  shows "window_wf (s1\<lparr>heap := h\<rparr>)
         \<and> okset (s1\<lparr>heap := h\<rparr>) (set (window_samples (s1\<lparr>heap := h\<rparr>)))"
proof -
  let ?r = "data s"
  from array_store_Inr[OF push[unfolded array_push_def]]
  obtain es where es: "?r < length (heap s1)" "elems (heap s1 ! ?r) = Some es"
    and h: "h = (heap s1)[?r := (heap s1 ! ?r)\<lparr>elems := Some (es @ [batch])\<rparr>]"
    by auto
  from t have wf1: "window_wf s1" and ok1: "okset s1 (set (window_samples s1))"
    by (simp_all add: transformed_def)
  have rlt: "?r < length (heap s)" using wf by (simp add: window_wf_def)
  show ?thesis
  proof (cases "moved s s1")
    case True
    then have "?r \<noteq> data s1" "\<forall>b \<in> set (window s1). b \<noteq> JRef ?r"
      using rlt by (auto simp add: moved_def)
    from other_store[OF wf1 ok1 this, of "s1\<lparr>heap := h\<rparr>"] h show ?thesis by simp
  next
    case False
    have same: "data s1 = data s \<and> window s1 = window s"
      using t False unfolding transformed_def by blast
    then have d1: "data s1 = ?r" by simp
    have es': "es = window s1"
      using window_array[OF wf1] es d1 by (simp add: array_of_def lookup_def)
    have vb: "valid_ref (heap s1) batch \<and> batch \<noteq> JRef (data s1)"
      using t unfolding transformed_def by (auto simp add: valid_ref_def)
    have nb: "\<forall>x \<in> set (batch_samples (heap s1) batch). valid_ref (heap s1) x"
      using t False unfolding transformed_def
      by (auto simp add: batch_samples_def array_of_def lookup_def)
    have okb: "okset s1 (set (batch_samples (heap s1) batch))"
      using t False unfolding transformed_def
      by (auto simp add: batch_samples_def array_of_def lookup_def okset_def)
    have U: "(\<Union>b \<in> set (window s1 @ [batch]). set (batch_samples (heap s1) b))
        = set (window_samples s1) \<union> set (batch_samples (heap s1) batch)"
      by (auto simp add: window_samples_def)
    have "window_wf (s1\<lparr>heap := h\<rparr>) \<and> window (s1\<lparr>heap := h\<rparr>) = window s1 @ [batch]
          \<and> okset (s1\<lparr>heap := h\<rparr>) (set (window_samples (s1\<lparr>heap := h\<rparr>)))"
    proof (rule data_store)
      show "data s1 < length (heap s1)" using es(1) d1 by simp
      show "s1\<lparr>heap := h\<rparr> = s1\<lparr>heap := (heap s1)[data s1 := (heap s1 ! data s1)\<lparr>elems := Some (window s1 @ [batch])\<rparr>]\<rparr>"
        using h es' d1 by simp
      show "\<forall>b\<in>set (window s1 @ [batch]). valid_ref (heap s1) b \<and> b \<noteq> JRef (data s1)"
        using wf1 vb by (auto simp add: window_wf_def)
      show "\<forall>b\<in>set (window s1 @ [batch]). \<forall>x\<in>set (batch_samples (heap s1) b). valid_ref (heap s1) x"
        using nb window_samples_valid[OF wf1] window_batch_samples_sub[of _ s1] by auto
      show "okset s1 (\<Union>b\<in>set (window s1 @ [batch]). set (batch_samples (heap s1) b))"
        unfolding U using ok1 okb by (simp add: okset_Un)
    qed
    then show ?thesis by simp
  qed
qed

lemma shift_inv:
  assumes wf: "window_wf s" and ok: "okset s (set (window_samples s))"
    and sh: "array_shift (heap s) (data s) = Inr h"
  shows "window_wf (s\<lparr>heap := h\<rparr>)
         \<and> okset (s\<lparr>heap := h\<rparr>) (set (window_samples (s\<lparr>heap := h\<rparr>)))"
proof -
  from array_store_Inr[OF sh[unfolded array_shift_def]]
  obtain es where es: "data s < length (heap s)" "elems (heap s ! data s) = Some es"
    and h: "h = (heap s)[data s := (heap s ! data s)\<lparr>elems := Some (tl es)\<rparr>]"
    by auto
  have es': "es = window s"
    using window_array[OF wf] es by (simp add: array_of_def lookup_def)
  have sub: "set (tl (window s)) \<subseteq> set (window s)"
    by (cases "window s") auto
  have "window_wf (s\<lparr>heap := h\<rparr>) \<and> window (s\<lparr>heap := h\<rparr>) = tl (window s)
          \<and> okset (s\<lparr>heap := h\<rparr>) (set (window_samples (s\<lparr>heap := h\<rparr>)))"
  proof (rule data_store)
    show "data s < length (heap s)" by (rule es(1))
    show "s\<lparr>heap := h\<rparr> = s\<lparr>heap := (heap s)[data s := (heap s ! data s)\<lparr>elems := Some (tl (window s))\<rparr>]\<rparr>"
      using h es' by simp
    show "\<forall>b\<in>set (tl (window s)). valid_ref (heap s) b \<and> b \<noteq> JRef (data s)"
      using wf sub by (auto simp add: window_wf_def)
    show "\<forall>b\<in>set (tl (window s)). \<forall>x\<in>set (batch_samples (heap s) b). valid_ref (heap s) x"
      using sub window_samples_valid[OF wf] window_batch_samples_sub[of _ s] by blast
    show "okset s (\<Union>b\<in>set (tl (window s)). set (batch_samples (heap s) b))"
      by (rule okset_mono[OF ok]) (use sub window_batch_samples_sub[of _ s] in blast)
  qed
  then show ?thesis by simp
qed

lemma addChartData_inv:
  assumes wf: "window_wf s" and ok: "okset s (set (window_samples s))"
    and run: "addChartData n s v = Inr s'"
  shows "window_wf s' \<and> okset s' (set (window_samples s'))"
proof -
  from run obtain batch s1 where tr: "transformChartDataToPercent n s v = Inr (batch, s1)"
    by (cases "transformChartDataToPercent n s v") (auto simp add: addChartData_def Let_def)
  from run tr obtain h where push: "array_push (heap s1) (data s) batch = Inr h"
    by (cases "array_push (heap s1) (data s) batch") (auto simp add: addChartData_def Let_def)
  let ?s2 = "s1\<lparr>heap := h\<rparr>"
  from run tr push obtain len where len: "array_length (heap ?s2) (data ?s2) = Inr len"
    by (cases "array_length (heap ?s2) (data ?s2)") (auto simp add: addChartData_def Let_def)
  have t: "transformed s batch s1"
    by (rule transform_inv[OF calculatePercent_good wf ok tr[unfolded transformChartDataToPercent_def]])
  have J2: "window_wf ?s2" "okset ?s2 (set (window_samples ?s2))"
    using push_inv[OF wf t push] by simp_all
  show ?thesis
  proof (cases "js_lt (totalElement (options ?s2)) (Fin (of_nat len))")
    case False
    with run tr push len have "s' = ?s2" by (simp add: addChartData_def Let_def)
    then show ?thesis using J2 by simp
  next
    case True
    with run tr push len obtain h3 where sh: "array_shift (heap ?s2) (data ?s2) = Inr h3"
      and s': "s' = ?s2\<lparr>heap := h3\<rparr>"
      by (cases "array_shift (heap ?s2) (data ?s2)") (auto simp add: addChartData_def Let_def)
    show ?thesis using shift_inv[OF J2 sh] s' by simp
  qed
qed

section \<open>The window on a range that does not grow\<close>

text \<open>
  With \<open>calcMaxValue\<close> off no call replaces \<open>this.data\<close>: \<open>addChartData\<close> appends its batch
  to the window and removes the oldest batch when the length then exceeds \<open>totalElement\<close>,
  and on a new chart with room for \<open>cap\<close> batches the window holds \<open>min(n, cap)\<close> batches
  after \<open>n\<close> calls.
\<close>

lemma calculatePercent_fixed:
  assumes "\<not> calcMaxValue (options st)" "calculatePercent n st d = Inr (p, st')"
  shows "st' = st"
  using assms
  by (cases n)
     (auto simp add: calculatePercent_body_def filterValue_body_def andThen_def Let_def
       split: sum.splits if_splits)

lemma transformElement_fixed:
  assumes nc: "\<not> calcMaxValue (options s)"
    and run: "transformElement (calculatePercent n) s x = Inr (y, s')"
  shows "ext (heap s) (heap s') \<and> options s' = options s \<and> data s' = data s"
proof -
  consider (obj) "typeof x = ''object''"
    | (num) "typeof x \<noteq> ''object''" "typeof x = ''number''"
    | (other) "typeof x \<noteq> ''object''" "typeof x \<noteq> ''number''"
    by blast
  then show ?thesis
  proof cases
    case obj
    from run obj obtain v where v: "get_prop (heap s) x ''value'' = Inr v"
      by (cases "get_prop (heap s) x ''value''") (auto simp add: transformElement_def)
    from run obj v obtain h1 where h1: "set_prop (heap s) x ''defValue'' v = Inr h1"
      by (cases "set_prop (heap s) x ''defValue'' v") (auto simp add: transformElement_def)
    from run obj v h1 obtain v1 where v1: "get_prop h1 x ''value'' = Inr v1"
      by (cases "get_prop h1 x ''value''") (auto simp add: transformElement_def)
    from run obj v h1 v1 obtain p s1 where
      cp: "calculatePercent n (s\<lparr>heap := h1\<rparr>) v1 = Inr (p, s1)"
      by (cases "calculatePercent n (s\<lparr>heap := h1\<rparr>) v1") (auto simp add: transformElement_def)
    have s1: "s1 = s\<lparr>heap := h1\<rparr>"
      using calculatePercent_fixed[OF _ cp] nc by simp
    from run obj v h1 v1 cp obtain h2 where
      h2: "set_prop (heap s1) x ''value'' (JNum p) = Inr h2" and s': "s' = s1\<lparr>heap := h2\<rparr>"
      by (cases "set_prop (heap s1) x ''value'' (JNum p)") (auto simp add: transformElement_def)
    have "ext (heap s) h1"
      using set_prop_Inr[OF h1] ext_update_props by auto
    moreover have "ext h1 h2"
      using set_prop_Inr[OF h2] ext_update_props s1 by auto
    ultimately have "ext (heap s) h2" by (rule ext_trans)
    then show ?thesis using s' s1 by simp
  next
    case num
    from run num obtain p s1 where cp: "calculatePercent n s x = Inr (p, s1)"
      by (cases "calculatePercent n s x") (auto simp add: transformElement_def)
    have "s1 = s" using calculatePercent_fixed[OF nc cp] .
    then show ?thesis
      using run num cp by (auto simp add: transformElement_def alloc_def)
  next
    case other
    then show ?thesis using run by (simp add: transformElement_def)
  qed
qed

lemma transformArray_fixed:
  assumes nc: "\<not> calcMaxValue (options s)"
    and run: "transformArray (calculatePercent n) s v = Inr (b, s')"
  shows "ext (heap s) (heap s') \<and> options s' = options s \<and> data s' = data s"
proof (cases "array_of (heap s) v")
  case None
  then show ?thesis using run by (simp add: transformArray_def)
next
  case (Some xs)
  from run Some obtain ys s1 where
    loop: "mapWith (transformElement (calculatePercent n)) s xs = Inr (ys, s1)"
    by (cases "mapWith (transformElement (calculatePercent n)) s xs")
       (auto simp add: transformArray_def)
  have inv: "ext (heap s) (heap s1) \<and> options s1 = options s \<and> data s1 = data s"
  proof (rule mapWith_invariant(1)[OF loop,
        of "\<lambda>pre t. ext (heap s) (heap t) \<and> options t = options s \<and> data t = data s"])
    show "ext (heap s) (heap s) \<and> options s = options s \<and> data s = data s" by simp
  next
    fix t x y t' and pre :: "(jsval \<times> jsval) list"
    assume I: "ext (heap s) (heap t) \<and> options t = options s \<and> data t = data s"
      and step: "transformElement (calculatePercent n) t x = Inr (y, t')"
    have "\<not> calcMaxValue (options t)" using I nc by simp
    from transformElement_fixed[OF this step] I
    show "ext (heap s) (heap t') \<and> options t' = options s \<and> data t' = data s"
      using ext_trans by auto
  qed
  from run Some loop have "s' = s1\<lparr>heap := heap s1 @ [\<lparr>props = [], elems = Some ys\<rparr>]\<rparr>"
    by (simp add: transformArray_def returnArray_def new_array_def alloc_def)
  then show ?thesis using inv ext_trans[OF _ ext_append] by auto
qed

lemma transform_fixed:
  assumes nc: "\<not> calcMaxValue (options s)"
    and run: "transformChartDataToPercent n s v = Inr (b, s')"
  shows "ext (heap s) (heap s') \<and> options s' = options s \<and> data s' = data s"
proof -
  have wrap: "ext (heap s) (heap s') \<and> options s' = options s \<and> data s' = data s"
    if "transformArray (calculatePercent n) (s\<lparr>heap := heap s @ obs\<rparr>) w = Inr (b, s')" for obs w
  proof -
    have "\<not> calcMaxValue (options (s\<lparr>heap := heap s @ obs\<rparr>))" using nc by simp
    from transformArray_fixed[OF this that] show ?thesis
      using ext_trans[OF ext_append] by auto
  qed
  show ?thesis
  proof (cases "typeof v = ''number''")
    case True
    with run have "transformArray (calculatePercent n)
        (s\<lparr>heap := heap s @ [\<lparr>props = [(''value'', v)], elems = None\<rparr>,
                               \<lparr>props = [], elems = Some [JRef (length (heap s))]\<rparr>]\<rparr>)
        (JRef (Suc (length (heap s)))) = Inr (b, s')"
      by (simp add: transformChartDataToPercent_def transformChartDataToPercent_body_def
          new_array_def alloc_def)
    then show ?thesis by (rule wrap)
  next
    case False
    show ?thesis
    proof (cases "typeof v = ''object'' \<and> (\<exists>x. get_prop (heap s) v ''value'' = Inr x \<and> ToBoolean x)")
      case True
      with run False have "transformArray (calculatePercent n)
          (s\<lparr>heap := heap s @ [\<lparr>props = [], elems = Some [v]\<rparr>]\<rparr>) (JRef (length (heap s)))
            = Inr (b, s')"
        by (auto simp add: transformChartDataToPercent_def transformChartDataToPercent_body_def
            new_array_def alloc_def)
      then show ?thesis by (rule wrap)
    next
      case nosample: False
      with run False have "transformArray (calculatePercent n) s v = Inr (b, s')"
        by (cases "get_prop (heap s) v ''value''")
           (auto simp add: transformChartDataToPercent_def transformChartDataToPercent_body_def
             split: if_splits)
      from transformArray_fixed[OF nc this] show ?thesis .
    qed
  qed
qed

lemma addChartData_fixed:
  assumes nc: "\<not> calcMaxValue (options st)"
    and bs: "array_of (heap st) (JRef (data st)) = Some bs"
    and run: "addChartData n st v = Inr st'"
  shows "\<exists>b. array_of (heap st') (JRef (data st')) =
            Some (appended (totalElement (options st)) bs b)
          \<and> options st' = options st"
proof -
  from run obtain b s1 where tr: "transformChartDataToPercent n st v = Inr (b, s1)"
    by (cases "transformChartDataToPercent n st v") (auto simp add: addChartData_def Let_def)
  from transform_fixed[OF nc tr]
  have e: "ext (heap st) (heap s1)" and o: "options s1 = options st" and d: "data s1 = data st"
    by simp_all
  from array_of_Some_ref[OF bs]
  have lt: "data st < length (heap st)" and el: "elems (heap st ! data st) = Some bs"
    by simp_all
  have lt1: "data st < length (heap s1)" and el1: "elems (heap s1 ! data st) = Some bs"
    using e lt el by (auto simp add: ext_def)
  have "array_of (heap st') (JRef (data st')) =
      Some (appended (totalElement (options st)) bs b) \<and> options st' = options st"
    using run tr o d lt1 el1
    by (auto simp add: addChartData_def array_push_def array_store_def array_shift_def
        array_length_def array_of_def appended_def Let_def split: if_splits)
  then show ?thesis by blast
qed

lemma addAll_fixed_length:
  assumes "\<not> calcMaxValue (options st)" "totalElement (options st) = Fin (of_nat cap)"
    and "array_of (heap st) (JRef (data st)) = Some bs" "length bs \<le> cap"
    and "addAll n st vs = Inr st'"
  shows "windowLength st' = Inr (min (length bs + length vs) cap)"
  using assms
proof (induction vs arbitrary: st bs)
  case Nil
  then show ?case by (simp add: windowLength_def array_length_def)
next
  case (Cons v vs)
  from Cons.prems(5) obtain s1 where one: "addChartData n st v = Inr s1"
    and rest: "addAll n s1 vs = Inr st'"
    by (cases "addChartData n st v") auto
  from addChartData_fixed[OF Cons.prems(1,3) one] obtain b where
    a: "array_of (heap s1) (JRef (data s1)) = Some (appended (totalElement (options st)) bs b)"
    and o: "options s1 = options st"
    by blast
  let ?bs1 = "appended (totalElement (options st)) bs b"
  have len: "length ?bs1 = min (Suc (length bs)) cap"
    using Cons.prems(2,4) by (auto simp add: appended_def)
  have "windowLength st' = Inr (min (length ?bs1 + length vs) cap)"
    using Cons.IH[OF _ _ a _ rest] o Cons.prems(1,2) len by simp
  then show ?case using len by (simp add: min_def)
qed

lemma new_chart_fixed_length:
  assumes "\<not> calcMaxValue opts" "totalElement opts = Fin (of_nat cap)"
    and "addAll n (init (constructor opts)) vs = Inr st"
  shows "windowLength st = Inr (min (length vs) cap)"
proof -
  let ?s = "init (constructor opts)"
  have o: "options ?s = opts" and a: "array_of (heap ?s) (JRef (data ?s)) = Some []"
    by (simp_all add: init_def calculateDefaults_def calculateValueDiff_def constructor_def
        Let_def array_of_def split: option.splits)
  from addAll_fixed_length[OF _ _ a _ assms(3), of cap] o assms(1,2) show ?thesis by simp
qed

section \<open>No stale sample in the window\<close>

lemma recalc_without_fuel:
  assumes "recalculatePercents_body (calculatePercent 0) s = Inr s'"
  shows "calls s' = calls s"
proof -
  from assms obtain bs where bs: "array_of (heap s) (JRef (data s)) = Some bs"
    by (cases "array_of (heap s) (JRef (data s))") (auto simp add: recalculatePercents_body_def)
  from assms bs obtain rs s1 where loop: "mapWith (recalculateBatch (calculatePercent 0)) s bs = Inr (rs, s1)"
    by (cases "mapWith (recalculateBatch (calculatePercent 0)) s bs")
       (auto simp add: recalculatePercents_body_def)
  have sample: "recalculateSample (calculatePercent 0) t x = Inl (case get_prop (heap t) x ''defValue'' of Inl e \<Rightarrow> e | Inr d \<Rightarrow> RangeError)" for t x
    by (cases "get_prop (heap t) x ''defValue''") (simp_all add: recalculateSample_def)
  have inner: "t' = t \<and> ys = []" if "mapWith (recalculateSample (calculatePercent 0)) t xs = Inr (ys, t')" for t xs ys t'
  proof (cases xs)
    case Nil
    with that show ?thesis by simp
  next
    case (Cons x xs')
    with that sample[of t x] show ?thesis by simp
  qed
  have batch: "calls t' = calls t" if "recalculateBatch (calculatePercent 0) t b = Inr (r, t')" for t b r t'
  proof -
    from that obtain xs where xs: "array_of (heap t) b = Some xs"
      by (cases "array_of (heap t) b") (auto simp add: recalculateBatch_def)
    from that xs obtain ys t1 where l: "mapWith (recalculateSample (calculatePercent 0)) t xs = Inr (ys, t1)"
      by (cases "mapWith (recalculateSample (calculatePercent 0)) t xs") (auto simp add: recalculateBatch_def)
    from that xs l have "t' = t1\<lparr>heap := heap t1 @ [\<lparr>props = [], elems = Some ys\<rparr>]\<rparr>"
      by (simp add: recalculateBatch_def returnArray_def new_array_def alloc_def)
    then show ?thesis using inner[OF l] by simp
  qed
  have "calls s1 = calls s"
  proof (rule mapWith_invariant(1)[OF loop, of "\<lambda>pre t. calls t = calls s"])
    show "calls s = calls s" by simp
  next
    fix t b r t' and pre :: "(jsval \<times> jsval) list"
    assume "calls t = calls s" "recalculateBatch (calculatePercent 0) t b = Inr (r, t')"
    then show "calls t' = calls s" using batch[of t b r t'] by simp
  qed
  then show ?thesis
    using assms bs loop by (auto simp add: recalculatePercents_body_def new_array_def alloc_def)
qed

lemma sample_current_pure: "sample_current s x = sample_pure s x"
proof
  assume c: "sample_current s x"
  let ?d = "the_prop (heap s) x ''defValue''"
  from c obtain p where p: "the_prop (heap s) x ''value'' = JNum p"
    and run: "calculatePercent (Suc 0) s ?d = Inr (p, s)"
    by (cases "the_prop (heap s) x ''value''") (auto simp add: sample_current_def)
  from run obtain v where v: "ToNumber ?d = Inr v"
    by (cases "ToNumber ?d") (auto simp add: calculatePercent_body_def filterValue_body_def)
  have ng: "\<not> grows (options s) v"
  proof
    assume g: "grows (options s) v"
    let ?st2 = "calculateValueDiff
                   (s\<lparr>options := (options s)\<lparr>maxValue := js_add v (js_mul v (Fin (1 / 10)))\<rparr>\<rparr>)"
    from run calculatePercent_loud[OF v g, of 0]
    obtain st3 where rec: "recalculatePercents_body (calculatePercent 0) ?st2 = Inr st3"
      and st': "s = printRuler st3"
      by (cases "recalculatePercents_body (calculatePercent 0) ?st2") auto
    have "calls st3 = calls s" using recalc_without_fuel[OF rec] by (simp add: calculateValueDiff_def)
    moreover have "calls s = calls st3 @ [PrintRuler]" using st' by (simp add: printRuler_def)
    ultimately show False by simp
  qed
  show "sample_pure s x"
    using run p v ng calculatePercent_quiet[OF v ng, of 0] by (simp add: sample_pure_def)
next
  assume c: "sample_pure s x"
  let ?d = "the_prop (heap s) x ''defValue''"
  from c obtain v where v: "ToNumber ?d = Inr v" "\<not> grows (options s) v"
    "the_prop (heap s) x ''value'' = JNum (percentOf (options s) (settings s) (filtered (options s) v))"
    by (cases "ToNumber ?d") (auto simp add: sample_pure_def)
  show "sample_current s x"
    using v calculatePercent_quiet[OF v(1,2), of 0] by (simp add: sample_current_def)
qed

lemma new_chart_window:
  "window_wf (init (constructor opts))"
  "okset (init (constructor opts)) (set (window_samples (init (constructor opts))))"
  by (simp_all add: window_wf_def okset_def window_samples_def window_def array_of_def
      init_def calculateDefaults_def calculateValueDiff_def constructor_def Let_def
      split: option.splits)

lemma addAll_inv:
  assumes "window_wf s" "okset s (set (window_samples s))" "addAll n s vs = Inr s'"
  shows "window_wf s' \<and> okset s' (set (window_samples s'))"
  using assms
proof (induction vs arbitrary: s)
  case Nil
  then show ?case by simp
next
  case (Cons v vs)
  from Cons.prems(3) obtain s1 where one: "addChartData n s v = Inr s1"
    and rest: "addAll n s1 vs = Inr s'"
    by (cases "addChartData n s v") auto
  from addChartData_inv[OF Cons.prems(1,2) one]
  show ?case using Cons.IH[OF _ _ rest] by simp
qed

text \<open>
  On a new chart, whatever its options, the window is well formed and every sample in it is
  current after every sequence of \<open>addChartData\<close> calls that return.
\<close>

lemma new_chart_stays_current:
  assumes "addAll n (init (constructor opts)) vs = Inr st"
  shows "window_wf st \<and> window_current st"
  using addAll_inv[OF new_chart_window assms]
  by (simp add: window_current_def okset_def sample_current_pure)


section \<open>Growing the range\<close>



lemma steady_refl [simp]: "steady s s"
  by (simp add: steady_def)









end
